theory Spec2Isabelle
  imports Complex_Main
begin

section \<open>Errors raised by the pipeline\<close>

text \<open>
  The Python exceptions that the modelled functions can raise. \<open>AuthError\<close> is the
  exception class of \<^verbatim>\<open>src/enricher.py\<close>; the others are the built-in exceptions of the
  operations the code performs (a missing dictionary key or column, a list index out of
  range, a zero step of \<^verbatim>\<open>range\<close>, a division by zero, a file that is not there) and
  the error of \<^verbatim>\<open>pandas\<close> on a file it cannot parse.
\<close>

datatype error =
    AuthError
  | KeyError
  | IndexError
  | ValueError
  | ZeroDivisionError
  | FileNotFoundError
  | ParserError

section \<open>The enrichment client (\<^verbatim>\<open>src/enricher.py\<close>)\<close>

subsection \<open>Statistics, the network and the clock\<close>

text \<open>The dataclass \<^verbatim>\<open>EnrichmentStats\<close>; Python integers are unbounded.\<close>

record EnrichmentStats =
  total_sent :: int
  total_success :: int
  total_failed :: int
  rate_limit_hits :: int
  timeout_errors :: int
  other_errors :: int
  retry_count :: int

text \<open>
  The state that one enrichment run threads through its calls: the statistics object,
  the list of requests posted so far (each request is the list of titles it carries) and
  the list of pauses taken with \<^verbatim>\<open>asyncio.sleep\<close>, in seconds.
\<close>

record 'v world = EnrichmentStats +
  posts :: "'v list list"
  slept :: "real list"

text \<open>
  What one \<^verbatim>\<open>client.post\<close> call does: it returns a response with a status code and a
  body, or it raises \<^verbatim>\<open>httpx.TimeoutException\<close>, or it raises some other exception.
  A body is \<open>Json ds\<close> when \<^verbatim>\<open>response.json()\<close> is an object whose
  \<^verbatim>\<open>processed_data\<close> (default \<^verbatim>\<open>[]\<close>) is the list \<open>ds\<close>, and \<open>Unparseable\<close> when reading
  it raises.
\<close>

datatype 'd body = Json "'d list" | Unparseable

datatype 'd outcome =
    Response int "'d body"
  | TimeoutException
  | OtherException

text \<open>
  The remote service: the outcome of the \<open>k\<close>-th request posted during the run,
  counted from zero.
\<close>

type_synonym 'd client = "nat \<Rightarrow> 'd outcome"

definition HTTP_OK :: int where "HTTP_OK = 200"
definition HTTP_UNAUTHORIZED :: int where "HTTP_UNAUTHORIZED = 401"
definition HTTP_RATE_LIMIT :: int where "HTTP_RATE_LIMIT = 429"
definition HTTP_SERVER_ERROR :: int where "HTTP_SERVER_ERROR = 500"

text \<open>Python's \<^verbatim>\<open>range(n)\<close>: empty when \<open>n \<le> 0\<close>.\<close>

definition range_py :: "int \<Rightarrow> int list" where
  "range_py n = map int [0..<nat n]"

text \<open>\<^verbatim>\<open>await asyncio.sleep(t)\<close>.\<close>

definition sleep :: "real \<Rightarrow> ('v, 'z) world_scheme \<Rightarrow> ('v, 'z) world_scheme" where
  "sleep t w = w\<lparr>slept := slept w @ [t]\<rparr>"

subsection \<open>One batch: \<^verbatim>\<open>enrich_batch\<close>\<close>

text \<open>How one pass through the body of the retry loop ends.\<close>

datatype 'd flow = Return "'d list" | Raise error | Continue

text \<open>
  The body of \<^verbatim>\<open>for attempt in range(retry)\<close>. The request is counted and posted
  first; the branches follow the source's order. A timeout on the last attempt falls out
  of the \<^verbatim>\<open>except\<close> block without \<^verbatim>\<open>continue\<close>, which ends the iteration all the same.
\<close>

definition send_attempt ::
  "'d client \<Rightarrow> 'v list \<Rightarrow> int \<Rightarrow> int \<Rightarrow> 'v world \<Rightarrow> 'd flow \<times> 'v world" where
  "send_attempt client titles retry attempt w =
     (let n = int (length titles);
          w1 = w\<lparr>total_sent := total_sent w + n, posts := posts w @ [titles]\<rparr>
      in case client (length (posts w)) of
           Response status_code b \<Rightarrow>
             if status_code = HTTP_OK then
               (case b of
                  Json processed \<Rightarrow>
                    (Return processed,
                     w1\<lparr>total_success := total_success w1 + int (length processed)\<rparr>)
                | Unparseable \<Rightarrow>
                    (Return [], w1\<lparr>other_errors := other_errors w1 + 1\<rparr>))
             else if status_code = HTTP_UNAUTHORIZED then
               (Raise AuthError, w1\<lparr>other_errors := other_errors w1 + n\<rparr>)
             else if status_code = HTTP_RATE_LIMIT then
               (let w2 = w1\<lparr>rate_limit_hits := rate_limit_hits w1 + 1\<rparr>;
                    w3 = sleep (2 ^ nat (attempt + 1)) w2
                in (Continue, w3\<lparr>retry_count := retry_count w3 + 1\<rparr>))
             else if status_code \<ge> HTTP_SERVER_ERROR then
               (let w2 = sleep 1 w1
                in (Continue, w2\<lparr>retry_count := retry_count w2 + 1\<rparr>))
             else
               (Return [], w1\<lparr>other_errors := other_errors w1 + n\<rparr>)
         | TimeoutException \<Rightarrow>
             (let w2 = w1\<lparr>timeout_errors := timeout_errors w1 + n\<rparr>
              in if attempt < retry - 1 then
                   (let w3 = sleep 1 w2
                    in (Continue, w3\<lparr>retry_count := retry_count w3 + 1\<rparr>))
                 else (Continue, w2))
         | OtherException \<Rightarrow>
             (Return [], w1\<lparr>other_errors := other_errors w1 + n\<rparr>))"

text \<open>
  The retry loop over the remaining attempts, and what follows it: when the attempts
  are used up the batch is counted as failed and the result is empty.
\<close>

fun enrich_batch_loop ::
  "'d client \<Rightarrow> 'v list \<Rightarrow> int \<Rightarrow> int list \<Rightarrow> 'v world \<Rightarrow> (error + 'd list) \<times> 'v world" where
  "enrich_batch_loop client titles retry [] w =
     (Inr [], w\<lparr>total_failed := total_failed w + int (length titles)\<rparr>)"
| "enrich_batch_loop client titles retry (attempt # rest) w =
     (case send_attempt client titles retry attempt w of
        (Return processed, w') \<Rightarrow> (Inr processed, w')
      | (Raise e, w') \<Rightarrow> (Inl e, w')
      | (Continue, w') \<Rightarrow> enrich_batch_loop client titles retry rest w')"

definition enrich_batch ::
  "'v list \<Rightarrow> 'd client \<Rightarrow> 'v world \<Rightarrow> int \<Rightarrow> (error + 'd list) \<times> 'v world" where
  "enrich_batch titles client w retry =
     enrich_batch_loop client titles retry (range_py retry) w"

subsection \<open>All records: \<^verbatim>\<open>enrich_all_ads\<close>\<close>

text \<open>
  An ad and a classification object are Python dictionaries with string keys;
  \<^verbatim>\<open>{**a, **d}\<close> is \<open>a ++ d\<close>: the keys of \<open>d\<close> win, every other key of \<open>a\<close> stays.
\<close>

type_synonym 'v dict = "string \<rightharpoonup> 'v"

text \<open>
  \<^verbatim>\<open>range(0, stop, step)\<close> as the batch loop calls it: a zero step raises
  \<^verbatim>\<open>ValueError\<close>, a negative step gives no index when \<open>stop \<ge> 0\<close>.
\<close>

definition range_step :: "int \<Rightarrow> int \<Rightarrow> error + int list" where
  "range_step stop step =
     (if step = 0 then Inl ValueError
      else if step < 0 then Inr (map (\<lambda>k. int k * step) [0..<nat ((- stop - step - 1) div (- step))])
      else Inr (map (\<lambda>k. int k * step) [0..<nat ((stop + step - 1) div step)]))"

text \<open>The slice \<^verbatim>\<open>xs[lo:hi]\<close>, with Python's treatment of negative and large bounds.\<close>

definition slice_bound :: "nat \<Rightarrow> int \<Rightarrow> nat" where
  "slice_bound n i = (if i < 0 then nat (max 0 (int n + i)) else min n (nat i))"

definition slice :: "'a list \<Rightarrow> int \<Rightarrow> int \<Rightarrow> 'a list" where
  "slice xs lo hi = drop (slice_bound (length xs) lo) (take (slice_bound (length xs) hi) xs)"

text \<open>\<^verbatim>\<open>[a["title"] for a in batch]\<close>: a record without the key raises \<^verbatim>\<open>KeyError\<close>.\<close>

fun titles_of :: "'v dict list \<Rightarrow> error + 'v list" where
  "titles_of [] = Inr []"
| "titles_of (a # batch) =
     (case a ''title'' of
        None \<Rightarrow> Inl KeyError
      | Some t \<Rightarrow> (case titles_of batch of Inl e \<Rightarrow> Inl e | Inr ts \<Rightarrow> Inr (t # ts)))"

text \<open>
  The merge loop \<^verbatim>\<open>for j, enriched_item in enumerate(enriched)\<close>: \<^verbatim>\<open>batch[j]\<close> raises
  \<^verbatim>\<open>IndexError\<close> when \<open>j\<close> is not an index of the batch.
\<close>

fun merge_loop ::
  "'v dict list \<Rightarrow> (nat \<times> 'v dict) list \<Rightarrow> 'v dict list \<Rightarrow> error + 'v dict list" where
  "merge_loop batch [] results = Inr results"
| "merge_loop batch ((j, enriched_item) # rest) results =
     (if j < length batch
      then merge_loop batch rest (results @ [(batch ! j) ++ enriched_item])
      else Inl IndexError)"

text \<open>
  The body of the batch loop at index \<open>i\<close>: slice, collect the titles, call
  \<^verbatim>\<open>enrich_batch\<close> with its default of three attempts, merge, and pause unless this was
  the last batch. An exception leaves the loop with the state reached so far.
\<close>

definition batch_step ::
  "'v dict client \<Rightarrow> 'v dict list \<Rightarrow> int \<Rightarrow> real \<Rightarrow> int \<Rightarrow> 'v dict list \<Rightarrow> 'v world
     \<Rightarrow> (error + 'v dict list) \<times> 'v world" where
  "batch_step client ads batch_size rate_limit_delay i results w =
     (let batch = slice ads i (i + batch_size)
      in case titles_of batch of
           Inl e \<Rightarrow> (Inl e, w)
         | Inr titles \<Rightarrow>
             (case enrich_batch titles client w 3 of
                (Inl e, w1) \<Rightarrow> (Inl e, w1)
              | (Inr enriched, w1) \<Rightarrow>
                  (case merge_loop batch (enumerate 0 enriched) results of
                     Inl e \<Rightarrow> (Inl e, w1)
                   | Inr results' \<Rightarrow>
                       (Inr results',
                        if i + batch_size < int (length ads)
                        then sleep rate_limit_delay w1 else w1))))"

fun batches_loop ::
  "'v dict client \<Rightarrow> 'v dict list \<Rightarrow> int \<Rightarrow> real \<Rightarrow> int list \<Rightarrow> 'v dict list \<Rightarrow> 'v world
     \<Rightarrow> (error + 'v dict list) \<times> 'v world" where
  "batches_loop client ads batch_size rate_limit_delay [] results w = (Inr results, w)"
| "batches_loop client ads batch_size rate_limit_delay (i # rest) results w =
     (case batch_step client ads batch_size rate_limit_delay i results w of
        (Inl e, w') \<Rightarrow> (Inl e, w')
      | (Inr results', w') \<Rightarrow>
          batches_loop client ads batch_size rate_limit_delay rest results' w')"

text \<open>The state at the start of a run: fresh statistics, nothing posted, no pause.\<close>

definition world0 :: "'v world" where
  "world0 =
     \<lparr>total_sent = 0, total_success = 0, total_failed = 0, rate_limit_hits = 0,
      timeout_errors = 0, other_errors = 0, retry_count = 0, posts = [], slept = []\<rparr>"

text \<open>
  \<^verbatim>\<open>enrich_all_ads(ads, batch_size, rate_limit_delay)\<close> against a given service. The
  result is the exception raised or the merged records, together with the final state
  (whose statistics part is the second component of the Python result).
\<close>

definition enrich_all_ads ::
  "'v dict client \<Rightarrow> 'v dict list \<Rightarrow> int \<Rightarrow> real \<Rightarrow> (error + 'v dict list) \<times> 'v world" where
  "enrich_all_ads client ads batch_size rate_limit_delay =
     (case range_step (int (length ads)) batch_size of
        Inl e \<Rightarrow> (Inl e, world0)
      | Inr indices \<Rightarrow> batches_loop client ads batch_size rate_limit_delay indices [] world0)"

subsection \<open>Kinds of outcome\<close>

text \<open>
  The branches of the retry loop, as predicates on the outcome of one request:
  a 401 response; an outcome after which the loop goes on to the next attempt (429, a
  status of 500 or more, a timeout); a timeout; a 200 response whose body cannot be read
  (counted once as an other-error); and the outcomes after which the batch is given up
  with the batch size added to the other-errors (401, any status not handled before, any
  other exception). \<open>flow_of\<close> is the control flow the body of the loop takes.
\<close>

definition is_401 :: "'d outcome \<Rightarrow> bool" where
  "is_401 oc = (case oc of Response s b \<Rightarrow> s = HTTP_UNAUTHORIZED | _ \<Rightarrow> False)"

definition retryable :: "'d outcome \<Rightarrow> bool" where
  "retryable oc =
     (case oc of
        Response s b \<Rightarrow> s = HTTP_RATE_LIMIT \<or> s \<ge> HTTP_SERVER_ERROR
      | TimeoutException \<Rightarrow> True
      | OtherException \<Rightarrow> False)"

definition is_timeout :: "'d outcome \<Rightarrow> bool" where
  "is_timeout oc = (case oc of TimeoutException \<Rightarrow> True | _ \<Rightarrow> False)"

definition unparseable_ok :: "'d outcome \<Rightarrow> bool" where
  "unparseable_ok oc = (case oc of Response s Unparseable \<Rightarrow> s = HTTP_OK | _ \<Rightarrow> False)"

definition abandoned :: "'d outcome \<Rightarrow> bool" where
  "abandoned oc =
     (case oc of
        Response s b \<Rightarrow> s \<noteq> HTTP_OK \<and> s \<noteq> HTTP_RATE_LIMIT \<and> s < HTTP_SERVER_ERROR
      | TimeoutException \<Rightarrow> False
      | OtherException \<Rightarrow> True)"

definition flow_of :: "'d outcome \<Rightarrow> 'd flow" where
  "flow_of oc =
     (case oc of
        Response s b \<Rightarrow>
          if s = HTTP_OK then (case b of Json ds \<Rightarrow> Return ds | Unparseable \<Rightarrow> Return [])
          else if s = HTTP_UNAUTHORIZED then Raise AuthError
          else if s = HTTP_RATE_LIMIT \<or> s \<ge> HTTP_SERVER_ERROR then Continue
          else Return []
      | TimeoutException \<Rightarrow> Continue
      | OtherException \<Rightarrow> Return [])"

text \<open>
  The \<open>k\<close>-th response does not carry more classification objects than the \<open>k\<close>-th
  request of the log \<open>ps\<close> carries titles.
\<close>

definition no_surplus :: "'d client \<Rightarrow> 'v list list \<Rightarrow> nat \<Rightarrow> bool" where
  "no_surplus client ps k =
     (case client k of
        Response s (Json ds) \<Rightarrow> s = HTTP_OK \<longrightarrow> length ds \<le> length (ps ! k)
      | _ \<Rightarrow> True)"

text \<open>
  The \<open>k\<close>-th request is answered at once with HTTP 200 and a readable body that holds
  at most one object for each record of the \<open>k\<close>-th batch.
\<close>

definition first_try_success :: "'v dict client \<Rightarrow> 'v dict list \<Rightarrow> int \<Rightarrow> nat \<Rightarrow> bool" where
  "first_try_success client ads batch_size k =
     (case client k of
        Response s (Json ds) \<Rightarrow>
          s = HTTP_OK \<and>
          length ds \<le> length (slice ads (int k * batch_size) (int k * batch_size + batch_size))
      | _ \<Rightarrow> False)"

subsection \<open>Example records and services\<close>

definition two_ads :: "string dict list" where
  "two_ads = [[''ad_id'' \<mapsto> ''1'', ''title'' \<mapsto> ''pump''],
              [''ad_id'' \<mapsto> ''2'', ''title'' \<mapsto> ''valve'']]"

definition three_listed :: "string dict list" where
  "three_listed = [[''ad_id'' \<mapsto> ''1'', ''title'' \<mapsto> ''pump''],
                   [''ad_id'' \<mapsto> ''2'', ''title'' \<mapsto> ''valve''],
                   [''ad_id'' \<mapsto> ''3'', ''title'' \<mapsto> ''gear'']]"

definition three_ads :: "string dict list" where
  "three_ads = [[''title'' \<mapsto> ''pump''], [''title'' \<mapsto> ''valve''], [''title'' \<mapsto> ''gear'']]"

definition one_object :: "nat \<Rightarrow> string dict outcome" where
  "one_object k = Response 200 (Json [[''marka'' \<mapsto> ''jcb'']])"

definition three_objects :: "nat \<Rightarrow> string dict outcome" where
  "three_objects k = Response 200 (Json [[''marka'' \<mapsto> ''jcb''], Map.empty, Map.empty])"

definition reject_second :: "nat \<Rightarrow> string dict outcome" where
  "reject_second k = (if k = 1 then Response 401 Unparseable else Response 200 (Json []))"

definition teapot :: "nat \<Rightarrow> string dict outcome" where
  "teapot k = (if k = 0 then Response 418 Unparseable
               else if k = 1 then Response 200 Unparseable
               else OtherException)"

text \<open>
  A service that answers 429, then 503, then times out for ever; and one that always
  times out.
\<close>

definition flaky :: "nat \<Rightarrow> string dict outcome" where
  "flaky k = (if k = 0 then Response 429 Unparseable
              else if k = 1 then Response 503 (Json [])
              else TimeoutException)"

definition always_timeout :: "nat \<Rightarrow> string dict outcome" where
  "always_timeout k = TimeoutException"

section \<open>The coverage analyzer (\<^verbatim>\<open>src/analyzer.py\<close>)\<close>

subsection \<open>Tables\<close>

text \<open>
  A value that \<^verbatim>\<open>pandas\<close> holds in a cell after it has read a file and inferred the
  type of each column: a text, an integer, a float or a truth value. A float is given by
  the text that \<^verbatim>\<open>astype(str)\<close> writes for it (\<^verbatim>\<open>1.0\<close> for the float one, which is what a
  column of integers with a missing cell holds), so the two zeros apart, two floats are
  equal when their texts are. A cell is missing (\<open>NaN\<close>) or holds a value.
\<close>

datatype pyvalue = StrV string | IntV int | FloatV string | BoolV bool

datatype cell = NaN | Val pyvalue

text \<open>
  A row gives a cell for every column name; a table (a \<^verbatim>\<open>DataFrame\<close>) is its list of
  column names and its list of rows, and only the cells of its columns count.
\<close>

type_synonym row = "string \<Rightarrow> cell"

record frame =
  columns :: "string list"
  rows :: "row list"

text \<open>
  What the analyzer works on: the contents of the files by path, and the two functions
  of \<^verbatim>\<open>pandas\<close> between the content of a file and a table. \<open>parse\<close> is
  \<^verbatim>\<open>pandas.read_csv\<close> on the content of a file, with its recognition of missing cells and
  its inference of column types, \<open>None\<close> when it raises; \<open>render\<close> is what
  \<^verbatim>\<open>to_csv(index=False)\<close> writes for a table. Both are taken as they are: nothing is
  assumed of them.
\<close>

record 'csv files =
  contents :: "string \<rightharpoonup> 'csv"
  parse :: "'csv \<Rightarrow> frame option"
  render :: "frame \<Rightarrow> 'csv"

definition read_csv :: "'csv files \<Rightarrow> string \<Rightarrow> error + frame" where
  "read_csv fs path =
     (case contents fs path of
        None \<Rightarrow> Inl FileNotFoundError
      | Some content \<Rightarrow>
          (case parse fs content of None \<Rightarrow> Inl ParserError | Some df \<Rightarrow> Inr df))"

definition to_csv :: "frame \<Rightarrow> string \<Rightarrow> 'csv files \<Rightarrow> 'csv files" where
  "to_csv df path fs = fs\<lparr>contents := (contents fs)(path \<mapsto> render fs df)\<rparr>"

text \<open>The text that \<^verbatim>\<open>astype(str)\<close> gives the value of a cell: Python's \<^verbatim>\<open>str\<close> of it.\<close>

function str_nat :: "nat \<Rightarrow> string" where
  "str_nat n = (if n < 10 then [''0123456789'' ! n]
                else str_nat (n div 10) @ [''0123456789'' ! (n mod 10)])"
  by pat_completeness auto
termination
  by (relation "measure (\<lambda>n. n)") auto

definition str_int :: "int \<Rightarrow> string" where
  "str_int i = (if i < 0 then CHR ''-'' # str_nat (nat (- i)) else str_nat (nat i))"

fun str_of :: "pyvalue \<Rightarrow> string" where
  "str_of (StrV s) = s"
| "str_of (IntV i) = str_int i"
| "str_of (FloatV t) = t"
| "str_of (BoolV b) = (if b then ''True'' else ''False'')"

definition group_cols :: "string list" where
  "group_cols = [''group0'', ''group1'', ''group2'']"

definition additional_cols :: "string list" where
  "additional_cols = [''marka'', ''model'']"

text \<open>The reason tag of the source, a Cyrillic word, as its UTF-8 bytes.\<close>

definition reason_tag :: string where
  "reason_tag = map char_of
     [208, 190, 209, 130, 209, 129, 209, 131, 209, 130, 209, 129, 209, 130, 208, 178,
      209, 131, 208, 181, 209, 130 :: nat]"

text \<open>\<^verbatim>\<open>.fillna("").astype(str)\<close> on one cell.\<close>

definition fillna_str :: "cell \<Rightarrow> cell" where
  "fillna_str c = (case c of NaN \<Rightarrow> Val (StrV []) | Val v \<Rightarrow> Val (StrV (str_of v)))"

text \<open>
  The loop that normalises the three group columns of a table; \<^verbatim>\<open>df[col]\<close> raises
  \<^verbatim>\<open>KeyError\<close> when the table has no such column.
\<close>

definition normalize_groups :: "frame \<Rightarrow> error + frame" where
  "normalize_groups df =
     (if set group_cols \<subseteq> set (columns df)
      then Inr (df\<lparr>rows := map (\<lambda>r c. if c \<in> set group_cols then fillna_str (r c) else r c)
                                (rows df)\<rparr>)
      else Inl KeyError)"

text \<open>\<^verbatim>\<open>df[cols]\<close> for columns the table has.\<close>

definition restrict_row :: "string list \<Rightarrow> row \<Rightarrow> row" where
  "restrict_row cols r = (\<lambda>c. if c \<in> set cols then r c else NaN)"

definition project :: "string list \<Rightarrow> frame \<Rightarrow> frame" where
  "project cols df = \<lparr>columns = cols, rows = map (restrict_row cols) (rows df)\<rparr>"

text \<open>The cells of a row at the given columns: what two rows are compared by.\<close>

definition row_key :: "string list \<Rightarrow> row \<Rightarrow> cell list" where
  "row_key cols r = map r cols"

text \<open>
  \<^verbatim>\<open>drop_duplicates()\<close>: of the rows that agree on every column, the first one stays.
\<close>

fun dedup_seen :: "('a \<Rightarrow> 'k) \<Rightarrow> 'k list \<Rightarrow> 'a list \<Rightarrow> 'a list" where
  "dedup_seen key seen [] = []"
| "dedup_seen key seen (x # xs) =
     (if key x \<in> set seen then dedup_seen key seen xs
      else x # dedup_seen key (key x # seen) xs)"

definition drop_duplicates :: "frame \<Rightarrow> frame" where
  "drop_duplicates df = df\<lparr>rows := dedup_seen (row_key (columns df)) [] (rows df)\<rparr>"

text \<open>
  \<^verbatim>\<open>left.merge(right, on=on, how=how, indicator=indicator)\<close> for \<^verbatim>\<open>how\<close> one of
  \<^verbatim>\<open>"left"\<close> and \<^verbatim>\<open>"inner"\<close>, when the two tables share no column outside \<open>on\<close>: every
  left row is paired with every right row that agrees with it on \<open>on\<close>, in the order of
  the left rows; a left row without a partner stays alone in a left merge and is dropped
  in an inner one. The indicator column is \<^verbatim>\<open>_merge\<close>.
\<close>

datatype how = Left | Inner

definition merge :: "frame \<Rightarrow> frame \<Rightarrow> string list \<Rightarrow> how \<Rightarrow> bool \<Rightarrow> frame" where
  "merge left right on how' indicator =
     (let cols = columns left @ filter (\<lambda>c. c \<notin> set on) (columns right);
          tag = (\<lambda>v r. if indicator then r(''_merge'' := Val (StrV v)) else r);
          matches = (\<lambda>l. filter (\<lambda>r. row_key on r = row_key on l) (rows right));
          joined = (\<lambda>l. map (\<lambda>r. tag ''both'' (\<lambda>c. if c \<in> set (columns left) then l c else r c))
                          (matches l));
          alone = (\<lambda>l. if how' = Left then [tag ''left_only'' (restrict_row (columns left) l)]
                       else [])
      in \<lparr>columns = (if indicator then cols @ [''_merge''] else cols),
          rows = concat (map (\<lambda>l. if matches l = [] then alone l else joined l) (rows left))\<rparr>)"

text \<open>\<^verbatim>\<open>df[col] = value\<close>: a new column, or every cell of an old one overwritten.\<close>

definition assign :: "string \<Rightarrow> cell \<Rightarrow> frame \<Rightarrow> frame" where
  "assign col v df =
     \<lparr>columns = (if col \<in> set (columns df) then columns df else columns df @ [col]),
      rows = map (\<lambda>r. r(col := v)) (rows df)\<rparr>"

text \<open>
  Lines 94 to 97 of the source: the rows are put in descending order of the number of
  catalog rows that have their group columns. The sort of the source does not say how
  ties are ordered; here they keep their order.
\<close>

definition frequency :: "frame \<Rightarrow> row \<Rightarrow> nat" where
  "frequency output_df r =
     length (filter (\<lambda>r'. row_key group_cols r' = row_key group_cols r) (rows output_df))"

definition sort_by_frequency :: "frame \<Rightarrow> frame \<Rightarrow> frame" where
  "sort_by_frequency output_df df =
     df\<lparr>rows := sort_key (\<lambda>r. - int (frequency output_df r)) (rows df)\<rparr>"

subsection \<open>\<^verbatim>\<open>find_missing_coverage\<close>\<close>

text \<open>
  The result is the exception raised, or the table returned together with the files
  after the call.
\<close>

definition find_missing_coverage ::
  "'csv files \<Rightarrow> string \<Rightarrow> string \<Rightarrow> string \<Rightarrow> error + frame \<times> 'csv files" where
  "find_missing_coverage fs enriched_path output_path output_missing_path =
     (case read_csv fs enriched_path of Inl e \<Rightarrow> Inl e | Inr enriched_raw \<Rightarrow>
      case read_csv fs output_path of Inl e \<Rightarrow> Inl e | Inr output_raw \<Rightarrow>
      case normalize_groups enriched_raw of Inl e \<Rightarrow> Inl e | Inr enriched_df \<Rightarrow>
      case normalize_groups output_raw of Inl e \<Rightarrow> Inl e | Inr output_df \<Rightarrow>
        (let existing_combinations = drop_duplicates (project group_cols enriched_df);
             target_combinations = drop_duplicates (project group_cols output_df);
             merged = merge target_combinations existing_combinations group_cols Left True;
             missing = merged\<lparr>rows := filter (\<lambda>r. r ''_merge'' = Val (StrV ''left_only'')) (rows merged)\<rparr>
         in if length (rows missing) = 0
            then Inr (\<lparr>columns = group_cols @ [''reason''], rows = []\<rparr>, fs)
            else
              (let missing_with_info = merge missing output_df group_cols Left False;
                   available_cols = filter (\<lambda>col. col \<in> set (columns missing_with_info))
                                      (group_cols @ additional_cols);
                   result_df = drop_duplicates (project available_cols missing_with_info);
                   result_df = foldl (\<lambda>df col. if col \<notin> set (columns df)
                                                then assign col (Val (StrV [])) df else df)
                                 result_df additional_cols;
                   result_df = assign ''reason'' (Val (StrV reason_tag)) result_df;
                   result_df = project (group_cols @ [''marka'', ''model'', ''reason'']) result_df;
                   result_df = sort_by_frequency output_df result_df
               in Inr (result_df, to_csv result_df output_missing_path fs))))"

subsection \<open>\<^verbatim>\<open>generate_coverage_report\<close>\<close>

record report =
  total_combinations :: int
  covered_combinations :: int
  missing_combinations :: int
  coverage_percentage :: real

text \<open>Python's \<^verbatim>\<open>a / b\<close> on integers: a zero divisor raises.\<close>

definition truediv :: "int \<Rightarrow> int \<Rightarrow> error + real" where
  "truediv a b = (if b = 0 then Inl ZeroDivisionError else Inr (real_of_int a / real_of_int b))"

text \<open>
  \<^verbatim>\<open>round(x, 2)\<close>, on exact numbers: to the nearest hundredth, a tie to the even one. The
  binary floating point of the source is not modelled.
\<close>

definition round_half_even :: "real \<Rightarrow> int" where
  "round_half_even y =
     (let f = \<lfloor>y\<rfloor>
      in if y - real_of_int f < 1 / 2 then f
         else if y - real_of_int f > 1 / 2 then f + 1
         else if even f then f else f + 1)"

definition round2 :: "real \<Rightarrow> real" where
  "round2 x = real_of_int (round_half_even (x * 100)) / 100"

definition generate_coverage_report ::
  "'csv files \<Rightarrow> string \<Rightarrow> string \<Rightarrow> error + report" where
  "generate_coverage_report fs enriched_path output_path =
     (case read_csv fs enriched_path of Inl e \<Rightarrow> Inl e | Inr enriched_raw \<Rightarrow>
      case read_csv fs output_path of Inl e \<Rightarrow> Inl e | Inr output_raw \<Rightarrow>
      case normalize_groups enriched_raw of Inl e \<Rightarrow> Inl e | Inr enriched_df \<Rightarrow>
      case normalize_groups output_raw of Inl e \<Rightarrow> Inl e | Inr output_df \<Rightarrow>
        (let enriched_combos = drop_duplicates (project group_cols enriched_df);
             output_combos = drop_duplicates (project group_cols output_df);
             total_combos = int (length (rows output_combos));
             merged = merge output_combos enriched_combos group_cols Inner False;
             covered_combos = int (length (rows merged));
             missing_combos = total_combos - covered_combos
         in case (if total_combos > 0
                  then (case truediv covered_combos total_combos of
                          Inl e \<Rightarrow> Inl e
                        | Inr q \<Rightarrow> Inr (q * 100))
                  else Inr 0) of
              Inl e \<Rightarrow> Inl e
            | Inr coverage_pct \<Rightarrow>
                Inr \<lparr>total_combinations = total_combos,
                     covered_combinations = covered_combos,
                     missing_combinations = missing_combos,
                     coverage_percentage = round2 coverage_pct\<rparr>))"

text \<open>
  The taxonomy key of a row: its three group cells, a missing one taken as the empty
  string; and the set of keys of a table.
\<close>

definition taxonomy_key :: "row \<Rightarrow> cell list" where
  "taxonomy_key r = map (\<lambda>c. fillna_str (r c)) group_cols"

definition taxonomy_keys :: "frame \<Rightarrow> cell list set" where
  "taxonomy_keys df = taxonomy_key ` set (rows df)"

subsection \<open>Example tables\<close>

text \<open>
  A catalog with two rows of one taxonomy key and different makes, an enriched table
  with another key, and an empty table; \<open>mk_row\<close> builds a row from its values.
\<close>

definition mk_row :: "(string \<times> string) list \<Rightarrow> row" where
  "mk_row kvs = (\<lambda>c. case map_of kvs c of None \<Rightarrow> NaN | Some s \<Rightarrow> Val (StrV s))"

definition catalog_cols :: "string list" where
  "catalog_cols = [''group0'', ''group1'', ''group2'', ''marka'', ''model'']"

definition catalog_two_makes :: frame where
  "catalog_two_makes =
     \<lparr>columns = catalog_cols,
      rows = [mk_row [(''group0'', ''A''), (''group1'', ''B''), (''group2'', ''C''),
                      (''marka'', ''jcb''), (''model'', ''X'')],
              mk_row [(''group0'', ''A''), (''group1'', ''B''), (''group2'', ''C''),
                      (''marka'', ''cat''), (''model'', ''Y'')]]\<rparr>"

definition enriched_other :: frame where
  "enriched_other =
     \<lparr>columns = catalog_cols,
      rows = [mk_row [(''group0'', ''D''), (''group1'', ''E''), (''group2'', ''F''),
                      (''marka'', ''jcb''), (''model'', ''X'')]]\<rparr>"

text \<open>
  Files that hold tables of texts, read and written as they are; and files whose
  catalog has a column of integers with a missing cell, which \<^verbatim>\<open>pandas\<close> reads as floats.
\<close>

definition on_disk :: "(string \<rightharpoonup> frame) \<Rightarrow> frame files" where
  "on_disk m = \<lparr>contents = m, parse = Some, render = (\<lambda>df. df)\<rparr>"

definition files_two_makes :: "frame files" where
  "files_two_makes =
     on_disk [''enriched.csv'' \<mapsto> enriched_other, ''output.csv'' \<mapsto> catalog_two_makes]"

definition files_identical :: "frame files" where
  "files_identical =
     on_disk [''enriched.csv'' \<mapsto> enriched_other, ''output.csv'' \<mapsto> enriched_other]"

definition empty_table :: frame where
  "empty_table = \<lparr>columns = group_cols, rows = []\<rparr>"

definition files_empty :: "frame files" where
  "files_empty = on_disk [''enriched.csv'' \<mapsto> empty_table, ''output.csv'' \<mapsto> empty_table]"

definition enriched_int :: frame where
  "enriched_int =
     \<lparr>columns = group_cols,
      rows = [(mk_row [(''group1'', ''a''), (''group2'', ''b'')])(''group0'' := Val (IntV 1))]\<rparr>"

definition catalog_float :: frame where
  "catalog_float =
     \<lparr>columns = group_cols,
      rows = [(mk_row [(''group1'', ''a''), (''group2'', ''b'')])(''group0'' := Val (FloatV ''1.0'')),
              mk_row [(''group1'', ''a''), (''group2'', ''b'')]]\<rparr>"

definition files_numeric :: "frame files" where
  "files_numeric = on_disk [''enriched.csv'' \<mapsto> enriched_int, ''output.csv'' \<mapsto> catalog_float]"

section \<open>The extractor (\<^verbatim>\<open>src/parser.py\<close>)\<close>

subsection \<open>Documents\<close>

text \<open>
  A Python string is a sequence of Unicode code points; \<open>ustr\<close> gives the string of an
  ASCII literal.
\<close>

type_synonym ustring = "nat list"

definition ustr :: "string \<Rightarrow> ustring" where
  "ustr s = map of_char s"

text \<open>
  A parsed HTML document, as \<^verbatim>\<open>BeautifulSoup\<close> gives it to the code: a tree of strings
  and of elements with a tag name, attributes and children. \<open>Text\<close> is a string that
  \<^verbatim>\<open>get_text\<close> reads; \<open>Hidden\<close> is one that it leaves out (a comment, the content of a
  script or a style). Reading the file and parsing its text are not modelled;
  \<open>parse_html_file\<close> starts from the tree.
\<close>

datatype node =
    Text ustring
  | Hidden ustring
  | Tag ustring "(ustring \<times> ustring) list" "node list"

text \<open>The dataclass \<^verbatim>\<open>Ad\<close>.\<close>

record Ad =
  ad_id :: ustring
  title :: ustring
  url :: ustring
  region :: ustring
  price :: ustring

text \<open>All nodes below a node, in document order.\<close>

fun descendants :: "node \<Rightarrow> node list" where
  "descendants (Text s) = []"
| "descendants (Hidden s) = []"
| "descendants (Tag name attrs children) = concat (map (\<lambda>c. c # descendants c) children)"

text \<open>\<^verbatim>\<open>elem.get(name)\<close> and \<^verbatim>\<open>str(elem.get(name, ""))\<close>.\<close>

fun attr :: "node \<Rightarrow> ustring \<Rightarrow> ustring option" where
  "attr (Text s) name = None"
| "attr (Hidden s) name = None"
| "attr (Tag tag attrs children) name = map_of attrs name"

definition get_str :: "node \<Rightarrow> ustring \<Rightarrow> ustring" where
  "get_str elem name = (case attr elem name of None \<Rightarrow> [] | Some v \<Rightarrow> v)"

fun tag_name :: "node \<Rightarrow> ustring option" where
  "tag_name (Text s) = None"
| "tag_name (Hidden s) = None"
| "tag_name (Tag tag attrs children) = Some tag"

text \<open>
  \<^verbatim>\<open>find_all(attrs={name: True})\<close>: every element below that has the attribute, whatever
  its value; \<^verbatim>\<open>find(attrs={name: value})\<close>: the first element below whose attribute has
  that value; \<^verbatim>\<open>find(tag)\<close>: the first element below with that tag name.
\<close>

definition find_all_with :: "node \<Rightarrow> ustring \<Rightarrow> node list" where
  "find_all_with soup name = filter (\<lambda>e. attr e name \<noteq> None) (descendants soup)"

definition find_attr :: "node \<Rightarrow> ustring \<Rightarrow> ustring \<Rightarrow> node option" where
  "find_attr elem name v = List.find (\<lambda>e. attr e name = Some v) (descendants elem)"

definition find_tag :: "node \<Rightarrow> ustring \<Rightarrow> node option" where
  "find_tag elem tag = List.find (\<lambda>e. tag_name e = Some tag) (descendants elem)"

text \<open>
  The white space that \<^verbatim>\<open>str.strip()\<close> removes: the code points for which
  \<^verbatim>\<open>str.isspace\<close> holds, among them the no-break space 160.
\<close>

definition is_space :: "nat \<Rightarrow> bool" where
  "is_space c =
     ((9 \<le> c \<and> c \<le> 13) \<or> (28 \<le> c \<and> c \<le> 32) \<or> c = 133 \<or> c = 160 \<or> c = 5760 \<or>
      (8192 \<le> c \<and> c \<le> 8202) \<or> c = 8232 \<or> c = 8233 \<or> c = 8239 \<or> c = 8287 \<or>
      c = 12288)"

definition strip :: "ustring \<Rightarrow> ustring" where
  "strip s = rev (dropWhile is_space (rev (dropWhile is_space s)))"

text \<open>
  \<^verbatim>\<open>get_text(strip=True)\<close>: the strings below the element that it reads, each stripped of
  the white space at its ends, the empty ones left out, joined.
\<close>

fun text_of :: "node \<Rightarrow> ustring list" where
  "text_of (Text s) = [s]"
| "text_of (Hidden s) = []"
| "text_of (Tag tag attrs children) = []"

definition get_text :: "node \<Rightarrow> ustring" where
  "get_text elem =
     concat (filter (\<lambda>s. s \<noteq> []) (map strip (concat (map text_of (descendants elem)))))"

subsection \<open>\<^verbatim>\<open>parse_html_file\<close>\<close>

text \<open>The text of a sub-element found by its marker, or the empty string.\<close>

definition marker_text :: "node \<Rightarrow> ustring \<Rightarrow> ustring" where
  "marker_text item marker =
     (case find_attr item (ustr ''data-marker'') marker of
        None \<Rightarrow> []
      | Some e \<Rightarrow> get_text e)"

definition resolved_title :: "node \<Rightarrow> ustring" where
  "resolved_title item = marker_text item (ustr ''item-title'')"

definition resolved_url :: "node \<Rightarrow> ustring" where
  "resolved_url item =
     (case find_attr item (ustr ''data-marker'') (ustr ''item-title'') of
        None \<Rightarrow> []
      | Some title_elem \<Rightarrow>
          if tag_name title_elem = Some (ustr ''a'') then get_str title_elem (ustr ''href'')
          else (case find_tag title_elem (ustr ''a'') of
                  None \<Rightarrow> []
                | Some link_elem \<Rightarrow> get_str link_elem (ustr ''href'')))"

text \<open>
  The body of the loop over the listing elements: \<open>None\<close> when the pass adds no record
  (the \<^verbatim>\<open>continue\<close> on an empty identifier, or an empty title at the end).
\<close>

definition extract_ad :: "node \<Rightarrow> Ad option" where
  "extract_ad item =
     (let ad_id = get_str item (ustr ''data-item-id'')
      in if ad_id = [] then None
         else
           (let title = resolved_title item;
                url = resolved_url item;
                region = marker_text item (ustr ''item-location'');
                price = marker_text item (ustr ''item-price'')
            in if title \<noteq> []
               then Some \<lparr>ad_id = ad_id, title = title, url = url, region = region, price = price\<rparr>
               else None))"

fun parse_items :: "node list \<Rightarrow> Ad list \<Rightarrow> Ad list" where
  "parse_items [] ads = ads"
| "parse_items (item # items) ads =
     (case extract_ad item of
        None \<Rightarrow> parse_items items ads
      | Some ad \<Rightarrow> parse_items items (ads @ [ad]))"

definition parse_html_file :: "node \<Rightarrow> Ad list" where
  "parse_html_file soup = parse_items (find_all_with soup (ustr ''data-item-id'')) []"

subsection \<open>Example document\<close>

text \<open>
  A document with one complete listing, whose title has a no-break space and a space
  around it, and three listings that give no record: one with an empty identifier, one
  whose title is a no-break space and a tab only, one without identifier.
\<close>

definition listing_ok :: node where
  "listing_ok =
     Tag (ustr ''div'') [(ustr ''data-item-id'', ustr ''123'')]
       [Tag (ustr ''a'') [(ustr ''data-marker'', ustr ''item-title''), (ustr ''href'', ustr ''/item/123'')]
          [Text (160 # ustr ''Pump '')]]"

definition listing_empty_id :: node where
  "listing_empty_id =
     Tag (ustr ''div'') [(ustr ''data-item-id'', [])]
       [Tag (ustr ''a'') [(ustr ''data-marker'', ustr ''item-title'')] [Text (ustr ''Valve'')]]"

definition listing_no_title :: node where
  "listing_no_title =
     Tag (ustr ''div'') [(ustr ''data-item-id'', ustr ''333'')]
       [Tag (ustr ''span'') [(ustr ''data-marker'', ustr ''item-title'')] [Text [160, 9]]]"

definition listing_no_id :: node where
  "listing_no_id =
     Tag (ustr ''div'') [] [Tag (ustr ''a'') [(ustr ''data-marker'', ustr ''item-title'')]
                                  [Text (ustr ''Gear'')]]"

definition sample_soup :: node where
  "sample_soup =
     Tag (ustr ''html'') []
       [Tag (ustr ''body'') [] [listing_ok, listing_empty_id, listing_no_title, listing_no_id]]"

section \<open>Properties of the enrichment client\<close>

lemmas http_defs = HTTP_OK_def HTTP_UNAUTHORIZED_def HTTP_RATE_LIMIT_def HTTP_SERVER_ERROR_def

lemma send_attempt_posts:
  "posts (snd (send_attempt c ts r a w)) = posts w @ [ts]"
  by (simp add: send_attempt_def Let_def sleep_def split: outcome.split body.split)

lemma send_attempt_flow:
  "fst (send_attempt c ts r a w) = flow_of (c (length (posts w)))"
  by (simp add: send_attempt_def flow_of_def Let_def split: outcome.split body.split)

lemma send_attempt_total_failed:
  "total_failed (snd (send_attempt c ts r a w)) = total_failed w"
  by (simp add: send_attempt_def Let_def sleep_def split: outcome.split body.split)

lemma send_attempt_timeout_errors:
  "timeout_errors (snd (send_attempt c ts r a w)) =
     timeout_errors w + (if is_timeout (c (length (posts w))) then int (length ts) else 0)"
  by (simp add: send_attempt_def is_timeout_def Let_def sleep_def split: outcome.split body.split)

lemma send_attempt_other_errors:
  "other_errors (snd (send_attempt c ts r a w)) =
     other_errors w + (if unparseable_ok (c (length (posts w))) then 1 else 0)
       + (if abandoned (c (length (posts w))) then int (length ts) else 0)"
  by (simp add: send_attempt_def unparseable_ok_def abandoned_def http_defs Let_def sleep_def
      split: outcome.split body.split)

lemma flow_of_retryable: "retryable oc \<longleftrightarrow> flow_of oc = Continue"
  by (auto simp: retryable_def flow_of_def http_defs split: outcome.split body.split)

lemma flow_of_401: "is_401 oc \<longleftrightarrow> flow_of oc = Raise AuthError"
  by (auto simp: is_401_def flow_of_def http_defs split: outcome.split body.split)

lemma flow_of_Raise: "flow_of oc = Raise e \<Longrightarrow> e = AuthError"
  by (auto simp: flow_of_def http_defs split: outcome.splits body.splits if_splits)

lemma flow_of_Return:
  "flow_of oc = Return ds \<Longrightarrow> ds = [] \<or> oc = Response HTTP_OK (Json ds)"
  by (auto simp: flow_of_def http_defs split: outcome.splits body.splits if_splits)

lemma loop_step:
  "enrich_batch_loop c ts r (a # as) w =
     (case flow_of (c (length (posts w))) of
        Return ds \<Rightarrow> (Inr ds, snd (send_attempt c ts r a w))
      | Raise e \<Rightarrow> (Inl e, snd (send_attempt c ts r a w))
      | Continue \<Rightarrow> enrich_batch_loop c ts r as (snd (send_attempt c ts r a w)))"
  using send_attempt_flow [of c ts r a w]
  by (cases "send_attempt c ts r a w") (auto split: flow.split)

declare enrich_batch_loop.simps(2) [simp del]

lemma loop_exhausted:
  "\<forall>k < length as. retryable (c (length (posts w) + k)) \<Longrightarrow>
   fst (enrich_batch_loop c ts r as w) = Inr [] \<and>
   total_failed (snd (enrich_batch_loop c ts r as w)) = total_failed w + int (length ts) \<and>
   posts (snd (enrich_batch_loop c ts r as w)) = posts w @ replicate (length as) ts"
proof (induction as arbitrary: w)
  case Nil
  show ?case by simp
next
  case (Cons a as)
  let ?w1 = "snd (send_attempt c ts r a w)"
  from Cons.prems have here: "flow_of (c (length (posts w))) = Continue"
    using flow_of_retryable by fastforce
  have "\<forall>k < length as. retryable (c (length (posts ?w1) + k))"
    using Cons.prems by (auto simp: send_attempt_posts)
  from Cons.IH [OF this] here show ?case
    by (simp add: loop_step send_attempt_posts send_attempt_total_failed replicate_app_Cons_same)
qed


lemma loop_posts_mono:
  "\<exists>m \<le> length as. posts (snd (enrich_batch_loop c ts r as w)) = posts w @ replicate m ts"
proof (induction as arbitrary: w)
  case Nil
  show ?case by simp
next
  case (Cons a as)
  let ?w1 = "snd (send_attempt c ts r a w)"
  show ?case
  proof (cases "flow_of (c (length (posts w)))")
    case Continue
    from Cons.IH [of ?w1] obtain m where
      m: "m \<le> length as" "posts (snd (enrich_batch_loop c ts r as ?w1)) = posts ?w1 @ replicate m ts"
      by blast
    have "posts (snd (enrich_batch_loop c ts r (a # as) w)) = posts w @ replicate (Suc m) ts"
      using m Continue by (simp add: loop_step send_attempt_posts)
    with m(1) show ?thesis by (intro exI [of _ "Suc m"]) simp
  next
    case (Return ds)
    then have "posts (snd (enrich_batch_loop c ts r (a # as) w)) = posts w @ replicate (Suc 0) ts"
      by (simp add: loop_step send_attempt_posts)
    then show ?thesis by (intro exI [of _ "Suc 0"]) simp
  next
    case (Raise e)
    then have "posts (snd (enrich_batch_loop c ts r (a # as) w)) = posts w @ replicate (Suc 0) ts"
      by (simp add: loop_step send_attempt_posts)
    then show ?thesis by (intro exI [of _ "Suc 0"]) simp
  qed
qed

lemma loop_length_mono:
  "length (posts w) \<le> length (posts (snd (enrich_batch_loop c ts r as w)))"
  using loop_posts_mono [of as c ts r w] by auto

lemma upt_filter_step:
  "p < q \<Longrightarrow> length (filter P (map c [p..<q])) =
     (if P (c p) then 1 else 0) + length (filter P (map c [Suc p..<q]))"
  by (simp add: upt_conv_Cons)

lemma loop_timeout_errors:
  "timeout_errors (snd (enrich_batch_loop c ts r as w)) =
     timeout_errors w + int (length ts) *
       int (length (filter is_timeout
         (map c [length (posts w)..<length (posts (snd (enrich_batch_loop c ts r as w)))])))"
proof (induction as arbitrary: w)
  case Nil
  show ?case by simp
next
  case (Cons a as)
  let ?w1 = "snd (send_attempt c ts r a w)"
  let ?p = "length (posts w)"
  have p1: "length (posts ?w1) = Suc ?p" by (simp add: send_attempt_posts)
  show ?case
  proof (cases "flow_of (c ?p)")
    case Continue
    let ?w' = "snd (enrich_batch_loop c ts r as ?w1)"
    have lt: "?p < length (posts ?w')"
      using loop_length_mono [of ?w1 c ts r as] p1 by simp
    have eq: "enrich_batch_loop c ts r (a # as) w = enrich_batch_loop c ts r as ?w1"
      using Continue by (simp add: loop_step)
    show ?thesis
      unfolding eq Cons.IH [of ?w1] upt_filter_step [OF lt] p1 send_attempt_timeout_errors
      by (simp add: algebra_simps)
  next
    case (Return ds)
    then have eq: "enrich_batch_loop c ts r (a # as) w = (Inr ds, ?w1)"
      by (simp add: loop_step)
    show ?thesis unfolding eq by (simp add: p1 send_attempt_timeout_errors)
  next
    case (Raise e)
    then have eq: "enrich_batch_loop c ts r (a # as) w = (Inl e, ?w1)"
      by (simp add: loop_step)
    show ?thesis unfolding eq by (simp add: p1 send_attempt_timeout_errors)
  qed
qed

lemma loop_other_errors:
  "other_errors (snd (enrich_batch_loop c ts r as w)) =
     other_errors w
     + int (length (filter unparseable_ok
         (map c [length (posts w)..<length (posts (snd (enrich_batch_loop c ts r as w)))])))
     + int (length ts) *
       int (length (filter abandoned
         (map c [length (posts w)..<length (posts (snd (enrich_batch_loop c ts r as w)))])))"
proof (induction as arbitrary: w)
  case Nil
  show ?case by simp
next
  case (Cons a as)
  let ?w1 = "snd (send_attempt c ts r a w)"
  let ?p = "length (posts w)"
  have p1: "length (posts ?w1) = Suc ?p" by (simp add: send_attempt_posts)
  show ?case
  proof (cases "flow_of (c ?p)")
    case Continue
    let ?w' = "snd (enrich_batch_loop c ts r as ?w1)"
    have lt: "?p < length (posts ?w')"
      using loop_length_mono [of ?w1 c ts r as] p1 by simp
    have eq: "enrich_batch_loop c ts r (a # as) w = enrich_batch_loop c ts r as ?w1"
      using Continue by (simp add: loop_step)
    show ?thesis
      unfolding eq Cons.IH [of ?w1] upt_filter_step [OF lt] p1 send_attempt_other_errors
      by (simp add: algebra_simps)
  next
    case (Return ds)
    then have eq: "enrich_batch_loop c ts r (a # as) w = (Inr ds, ?w1)"
      by (simp add: loop_step)
    show ?thesis unfolding eq by (simp add: p1 send_attempt_other_errors)
  next
    case (Raise e)
    then have eq: "enrich_batch_loop c ts r (a # as) w = (Inl e, ?w1)"
      by (simp add: loop_step)
    show ?thesis unfolding eq by (simp add: p1 send_attempt_other_errors)
  qed
qed

lemma range_py_3: "range_py 3 = [0, 1, 2]"
  by (simp add: range_py_def upt_rec)

subsection \<open>Exhausted retries\<close>

text \<open>
  C2. When every attempt of a batch, up to the retry ceiling, ends in a retryable
  outcome (HTTP 429, a status of 500 or more, or a timeout), \<open>enrich_batch\<close> returns the
  empty list, \<open>total_failed\<close> grows by exactly the number of titles of the batch, and
  exactly \<open>retry\<close> requests were sent.
\<close>

theorem exhausted_retries_fail_batch:
  assumes "\<forall>k < nat retry. retryable (client (length (posts w) + k))"
  shows "fst (enrich_batch titles client w retry) = Inr [] \<and>
         total_failed (snd (enrich_batch titles client w retry)) =
           total_failed w + int (length titles) \<and>
         length (posts (snd (enrich_batch titles client w retry))) =
           length (posts w) + nat retry"
  using loop_exhausted [of "range_py retry" client w titles retry] assms
  by (simp add: enrich_batch_def range_py_def)

theorem exhausted_retries_fail_batch_witness:
  "retryable (flaky 0) \<and> retryable (flaky 1) \<and> retryable (flaky 2) \<and>
   fst (enrich_batch [''pump'', ''valve''] flaky world0 3) = Inr [] \<and>
   total_failed (snd (enrich_batch [''pump'', ''valve''] flaky world0 3)) = 2 \<and>
   length (posts (snd (enrich_batch [''pump'', ''valve''] flaky world0 3))) = 3"
proof -
  have r: "retryable (flaky 0)" "retryable (flaky 1)" "retryable (flaky 2)"
    by (simp_all add: retryable_def flaky_def http_defs)
  have h: "\<forall>k < nat 3. retryable (flaky (length (posts (world0 :: string world)) + k))"
    by (simp add: retryable_def flaky_def http_defs world0_def)
  from exhausted_retries_fail_batch [OF h, of "[''pump'', ''valve'']"] r show ?thesis
    by (simp add: world0_def)
qed

subsection \<open>What the error statistics count\<close>

text \<open>
  C5, as the code has it. Over one call of \<open>enrich_batch\<close>, every timeout among the
  requests it sent adds the number of titles of the batch to \<open>timeout_errors\<close> (not one),
  every 200 response with an unreadable body adds one to \<open>other_errors\<close>, and every
  401, unexpected status or other exception adds the number of titles of the batch to
  \<open>other_errors\<close>.
\<close>

theorem statistics_count_titles:
  fixes client :: "'d client" and titles :: "'v list"
  defines "w' \<equiv> \<lambda>w retry. snd (enrich_batch titles client w retry)"
  defines "sent \<equiv> \<lambda>w retry. map client [length (posts w)..<length (posts (w' w retry))]"
  shows "timeout_errors (w' w retry) =
           timeout_errors w + int (length titles) * int (length (filter is_timeout (sent w retry))) \<and>
         other_errors (w' w retry) =
           other_errors w + int (length (filter unparseable_ok (sent w retry)))
             + int (length titles) * int (length (filter abandoned (sent w retry)))"
  unfolding w'_def sent_def enrich_batch_def
  using loop_timeout_errors [of client titles retry "range_py retry" w]
        loop_other_errors [of client titles retry "range_py retry" w]
  by simp

text \<open>
  The claim as written fails: a batch of two titles whose single attempt times out
  has one timeout occurrence, and \<open>timeout_errors\<close> is two.
\<close>

theorem timeout_statistic_counterexample:
  "map always_timeout
     [length (posts (world0 :: string world))..<
      length (posts (snd (enrich_batch [''pump'', ''valve''] always_timeout world0 1)))]
     = [TimeoutException] \<and>
   timeout_errors (snd (enrich_batch [''pump'', ''valve''] always_timeout world0 1))
     \<noteq> timeout_errors (world0 :: string world) + 1"
  by (simp add: enrich_batch_def range_py_def enrich_batch_loop.simps(2) send_attempt_def
      world0_def always_timeout_def)

subsection \<open>The retry loop, request by request\<close>

lemma loop_inner_retryable:
  "length (posts w) \<le> k \<Longrightarrow> Suc k < length (posts (snd (enrich_batch_loop c ts r as w))) \<Longrightarrow>
   retryable (c k)"
proof (induction as arbitrary: w)
  case Nil
  then show ?case by simp
next
  case (Cons a as)
  let ?w1 = "snd (send_attempt c ts r a w)"
  have p1: "length (posts ?w1) = Suc (length (posts w))" by (simp add: send_attempt_posts)
  show ?case
  proof (cases "flow_of (c (length (posts w)))")
    case Continue
    then have eq: "enrich_batch_loop c ts r (a # as) w = enrich_batch_loop c ts r as ?w1"
      by (simp add: loop_step)
    show ?thesis
    proof (cases "k = length (posts w)")
      case True
      with Continue show ?thesis by (simp add: flow_of_retryable)
    next
      case False
      with Cons.prems have "length (posts ?w1) \<le> k" by (simp add: p1)
      from Cons.IH [OF this] Cons.prems(2) show ?thesis by (simp add: eq)
    qed
  next
    case (Return ds)
    with Cons.prems show ?thesis by (simp add: loop_step p1)
  next
    case (Raise e)
    with Cons.prems show ?thesis by (simp add: loop_step p1)
  qed
qed

lemma loop_raise:
  "fst (enrich_batch_loop c ts r as w) = Inl e \<Longrightarrow>
   e = AuthError \<and> length (posts w) < length (posts (snd (enrich_batch_loop c ts r as w))) \<and>
   is_401 (c (length (posts (snd (enrich_batch_loop c ts r as w))) - 1))"
proof (induction as arbitrary: w)
  case Nil
  then show ?case by simp
next
  case (Cons a as)
  let ?w1 = "snd (send_attempt c ts r a w)"
  have p1: "length (posts ?w1) = Suc (length (posts w))" by (simp add: send_attempt_posts)
  show ?case
  proof (cases "flow_of (c (length (posts w)))")
    case Continue
    then have eq: "enrich_batch_loop c ts r (a # as) w = enrich_batch_loop c ts r as ?w1"
      by (simp add: loop_step)
    from Cons.prems have "fst (enrich_batch_loop c ts r as ?w1) = Inl e" by (simp add: eq)
    from Cons.IH [OF this] show ?thesis unfolding eq p1 by simp
  next
    case (Return ds)
    with Cons.prems show ?thesis by (simp add: loop_step)
  next
    case (Raise e')
    then have eq: "enrich_batch_loop c ts r (a # as) w = (Inl e', ?w1)"
      by (simp add: loop_step)
    from flow_of_Raise [OF Raise] Raise have "e' = AuthError" "is_401 (c (length (posts w)))"
      by (simp_all add: flow_of_401)
    with Cons.prems show ?thesis unfolding eq by (simp add: p1)
  qed
qed

lemma loop_401_last:
  "length (posts w) < length (posts (snd (enrich_batch_loop c ts r as w))) \<Longrightarrow>
   is_401 (c (length (posts (snd (enrich_batch_loop c ts r as w))) - 1)) \<Longrightarrow>
   fst (enrich_batch_loop c ts r as w) = Inl AuthError"
proof (induction as arbitrary: w)
  case Nil
  then show ?case by simp
next
  case (Cons a as)
  let ?w1 = "snd (send_attempt c ts r a w)"
  let ?w' = "snd (enrich_batch_loop c ts r as ?w1)"
  have p1: "length (posts ?w1) = Suc (length (posts w))" by (simp add: send_attempt_posts)
  show ?case
  proof (cases "flow_of (c (length (posts w)))")
    case Continue
    then have eq: "enrich_batch_loop c ts r (a # as) w = enrich_batch_loop c ts r as ?w1"
      by (simp add: loop_step)
    have not401: "\<not> is_401 (c (length (posts w)))"
      using Continue by (simp add: flow_of_401)
    have ge: "length (posts ?w1) \<le> length (posts ?w')"
      by (rule loop_length_mono)
    have last: "is_401 (c (length (posts ?w') - 1))"
      using Cons.prems(2) by (simp add: eq)
    have "length (posts ?w') \<noteq> Suc (length (posts w))"
    proof
      assume "length (posts ?w') = Suc (length (posts w))"
      with last not401 show False by simp
    qed
    with ge p1 have "length (posts ?w1) < length (posts ?w')" by linarith
    from Cons.IH [OF this last] show ?thesis by (simp add: eq)
  next
    case (Return ds)
    then have eq: "enrich_batch_loop c ts r (a # as) w = (Inr ds, ?w1)"
      by (simp add: loop_step)
    from Return have "\<not> is_401 (c (length (posts w)))" by (simp add: flow_of_401)
    with Cons.prems(2) show ?thesis unfolding eq by (simp add: p1)
  next
    case (Raise e')
    then have eq: "enrich_batch_loop c ts r (a # as) w = (Inl e', ?w1)"
      by (simp add: loop_step)
    from flow_of_Raise [OF Raise] show ?thesis unfolding eq by simp
  qed
qed

lemma loop_return:
  "fst (enrich_batch_loop c ts r as w) = Inr ds \<Longrightarrow>
   ds = [] \<or> (length (posts w) < length (posts (snd (enrich_batch_loop c ts r as w))) \<and>
     c (length (posts (snd (enrich_batch_loop c ts r as w))) - 1) = Response HTTP_OK (Json ds))"
proof (induction as arbitrary: w)
  case Nil
  then show ?case by simp
next
  case (Cons a as)
  let ?w1 = "snd (send_attempt c ts r a w)"
  have p1: "length (posts ?w1) = Suc (length (posts w))" by (simp add: send_attempt_posts)
  show ?case
  proof (cases "flow_of (c (length (posts w)))")
    case Continue
    then have eq: "enrich_batch_loop c ts r (a # as) w = enrich_batch_loop c ts r as ?w1"
      by (simp add: loop_step)
    from Cons.prems have "fst (enrich_batch_loop c ts r as ?w1) = Inr ds" by (simp add: eq)
    from Cons.IH [OF this] show ?thesis unfolding eq p1 by auto
  next
    case (Return ds')
    then have eq: "enrich_batch_loop c ts r (a # as) w = (Inr ds', ?w1)"
      by (simp add: loop_step)
    from Cons.prems have "ds' = ds" by (simp add: eq)
    with flow_of_Return [OF Return] show ?thesis unfolding eq by (simp add: p1)
  next
    case (Raise e')
    with Cons.prems show ?thesis by (simp add: loop_step)
  qed
qed

subsection \<open>The batch loop\<close>

lemma titles_of_err: "titles_of xs = Inl e \<Longrightarrow> e = KeyError"
  by (induction xs arbitrary: e) (auto split: option.splits sum.splits)

lemma titles_of_len: "titles_of xs = Inr ts \<Longrightarrow> length ts = length xs"
  by (induction xs arbitrary: ts) (auto split: option.splits sum.splits)

lemma titles_of_ok: "\<forall>a \<in> set xs. a ''title'' \<noteq> None \<Longrightarrow> \<exists>ts. titles_of xs = Inr ts"
  by (induction xs) (auto split: option.splits sum.splits)

lemma set_slice: "set (slice xs lo hi) \<subseteq> set xs"
  unfolding slice_def by (meson set_drop_subset set_take_subset subset_trans)

lemma bs_posts:
  "posts (snd (batch_step c ads b d i res w)) =
     (case titles_of (slice ads i (i + b)) of
        Inl e \<Rightarrow> posts w
      | Inr ts \<Rightarrow> posts (snd (enrich_batch ts c w 3)))"
  by (simp add: batch_step_def Let_def sleep_def split: sum.split prod.split)

lemma bs_fst:
  "fst (batch_step c ads b d i res w) =
     (case titles_of (slice ads i (i + b)) of
        Inl e \<Rightarrow> Inl e
      | Inr ts \<Rightarrow>
          (case fst (enrich_batch ts c w 3) of
             Inl e \<Rightarrow> Inl e
           | Inr en \<Rightarrow> merge_loop (slice ads i (i + b)) (enumerate 0 en) res))"
  by (simp add: batch_step_def Let_def split: sum.split prod.split)

lemma bs_ext:
  "\<exists>ext. posts (snd (batch_step c ads b d i res w)) = posts w @ ext \<and>
         (\<forall>t \<in> set ext. length t = length (slice ads i (i + b)))"
proof (cases "titles_of (slice ads i (i + b))")
  case (Inl e)
  then show ?thesis by (simp add: bs_posts)
next
  case (Inr ts)
  from loop_posts_mono [of "range_py 3" c ts 3 w] obtain m where
    "posts (snd (enrich_batch ts c w 3)) = posts w @ replicate m ts"
    by (auto simp: enrich_batch_def)
  with Inr titles_of_len [OF Inr] show ?thesis by (simp add: bs_posts)
qed

lemma bs_inner:
  assumes "length (posts w) \<le> k" and "Suc k < length (posts (snd (batch_step c ads b d i res w)))"
  shows "retryable (c k)"
proof (cases "titles_of (slice ads i (i + b))")
  case (Inl e)
  with assms show ?thesis by (simp add: bs_posts)
next
  case (Inr ts)
  with assms(2) have "Suc k < length (posts (snd (enrich_batch_loop c ts 3 (range_py 3) w)))"
    by (simp add: bs_posts enrich_batch_def)
  from loop_inner_retryable [OF assms(1) this] show ?thesis .
qed

lemma merge_loop_err: "merge_loop batch js res = Inl e \<Longrightarrow> e = IndexError"
  by (induction batch js res rule: merge_loop.induct) (auto split: if_splits)

lemma merge_loop_enum:
  "merge_loop batch (enumerate n enriched) results =
     (if n + length enriched \<le> length batch \<or> enriched = []
      then Inr (results @ map (\<lambda>(a, d). a ++ d) (zip (drop n batch) enriched))
      else Inl IndexError)"
proof (induction enriched arbitrary: n results)
  case Nil
  then show ?case by simp
next
  case (Cons d ds)
  show ?case
  proof (cases "n < length batch")
    case True
    then have "drop n batch = batch ! n # drop (Suc n) batch"
      by (simp add: Cons_nth_drop_Suc)
    with True Cons.IH [of "Suc n"] show ?thesis by auto
  next
    case False
    then show ?thesis by simp
  qed
qed

lemma bs_auth:
  assumes "fst (batch_step c ads b d i res w) = Inl AuthError"
  shows "length (posts w) < length (posts (snd (batch_step c ads b d i res w))) \<and>
         is_401 (c (length (posts (snd (batch_step c ads b d i res w))) - 1))"
proof (cases "titles_of (slice ads i (i + b))")
  case (Inl e)
  with assms titles_of_err [OF Inl] show ?thesis by (simp add: bs_fst)
next
  case (Inr ts)
  show ?thesis
  proof (cases "fst (enrich_batch ts c w 3)")
    case (Inl e)
    with assms Inr have "fst (enrich_batch_loop c ts 3 (range_py 3) w) = Inl AuthError"
      by (simp add: bs_fst enrich_batch_def)
    from loop_raise [OF this] Inr show ?thesis by (simp add: bs_posts enrich_batch_def)
  next
    case r: (Inr en)
    with assms Inr have "merge_loop (slice ads i (i + b)) (enumerate 0 en) res = Inl AuthError"
      by (simp add: bs_fst)
    from merge_loop_err [OF this] show ?thesis by simp
  qed
qed

lemma bs_401_last:
  assumes "length (posts w) < length (posts (snd (batch_step c ads b d i res w)))"
      and "is_401 (c (length (posts (snd (batch_step c ads b d i res w))) - 1))"
  shows "fst (batch_step c ads b d i res w) = Inl AuthError"
proof (cases "titles_of (slice ads i (i + b))")
  case (Inl e)
  with assms show ?thesis by (simp add: bs_posts)
next
  case (Inr ts)
  with assms have
    "length (posts w) < length (posts (snd (enrich_batch_loop c ts 3 (range_py 3) w)))"
    "is_401 (c (length (posts (snd (enrich_batch_loop c ts 3 (range_py 3) w))) - 1))"
    by (simp_all add: bs_posts enrich_batch_def)
  from loop_401_last [OF this] Inr show ?thesis by (simp add: bs_fst enrich_batch_def)
qed

lemma bs_error_kinds:
  assumes "fst (batch_step c ads b d i res w) = Inl e"
  shows "e = AuthError \<or>
         (e = KeyError \<and> titles_of (slice ads i (i + b)) = Inl KeyError) \<or>
         (e = IndexError \<and>
          length (posts w) < length (posts (snd (batch_step c ads b d i res w))) \<and>
          (\<exists>ds. c (length (posts (snd (batch_step c ads b d i res w))) - 1)
                   = Response HTTP_OK (Json ds) \<and>
                length (slice ads i (i + b)) < length ds))"
proof (cases "titles_of (slice ads i (i + b))")
  case (Inl e')
  with assms titles_of_err [OF Inl] show ?thesis by (simp add: bs_fst)
next
  case (Inr ts)
  show ?thesis
  proof (cases "fst (enrich_batch ts c w 3)")
    case (Inl e')
    with assms Inr have "fst (enrich_batch_loop c ts 3 (range_py 3) w) = Inl e"
      by (simp add: bs_fst enrich_batch_def)
    from loop_raise [OF this] show ?thesis by simp
  next
    case r: (Inr en)
    with assms Inr have m: "merge_loop (slice ads i (i + b)) (enumerate 0 en) res = Inl e"
      by (simp add: bs_fst)
    then have long: "length (slice ads i (i + b)) < length en" and ne: "en \<noteq> []"
      by (auto simp: merge_loop_enum split: if_splits)
    from r have "fst (enrich_batch_loop c ts 3 (range_py 3) w) = Inr en"
      by (simp add: enrich_batch_def)
    from loop_return [OF this] ne Inr long merge_loop_err [OF m] show ?thesis
      by (auto simp: bs_posts enrich_batch_def)
  qed
qed

lemma bl_step:
  "batches_loop c ads b d (i # rest) res w =
     (case fst (batch_step c ads b d i res w) of
        Inl e \<Rightarrow> (Inl e, snd (batch_step c ads b d i res w))
      | Inr res' \<Rightarrow> batches_loop c ads b d rest res' (snd (batch_step c ads b d i res w)))"
  by (cases "batch_step c ads b d i res w") (simp split: sum.split)

declare batches_loop.simps(2) [simp del]

lemma bl_ext:
  "\<exists>ext. posts (snd (batches_loop c ads b d is res w)) = posts w @ ext"
proof (induction "is" arbitrary: res w)
  case Nil
  show ?case by simp
next
  case (Cons i rest)
  let ?s = "batch_step c ads b d i res w"
  from bs_ext [of c ads b d i res w] obtain e1 where e1: "posts (snd ?s) = posts w @ e1" by blast
  show ?case
  proof (cases "fst ?s")
    case (Inl e)
    with e1 show ?thesis by (simp add: bl_step)
  next
    case (Inr res')
    from Cons.IH [of res' "snd ?s"] obtain e2 where
      "posts (snd (batches_loop c ads b d rest res' (snd ?s))) = posts (snd ?s) @ e2" by blast
    with e1 Inr show ?thesis by (simp add: bl_step)
  qed
qed

lemma bl_mono: "length (posts w) \<le> length (posts (snd (batches_loop c ads b d is res w)))"
  using bl_ext [of c ads b d "is" res w] by auto

lemma bs_mono: "length (posts w) \<le> length (posts (snd (batch_step c ads b d i res w)))"
  using bs_ext [of c ads b d i res w] by auto

lemma retryable_not_401: "retryable oc \<Longrightarrow> \<not> is_401 oc"
  by (simp add: flow_of_retryable flow_of_401)

lemma bl_inner:
  "length (posts w) \<le> k \<Longrightarrow> Suc k < length (posts (snd (batches_loop c ads b d is res w))) \<Longrightarrow>
   \<not> is_401 (c k)"
proof (induction "is" arbitrary: res w)
  case Nil
  then show ?case by simp
next
  case (Cons i rest)
  let ?s = "batch_step c ads b d i res w"
  show ?case
  proof (cases "fst ?s")
    case (Inl e)
    with Cons.prems have "Suc k < length (posts (snd ?s))" by (simp add: bl_step)
    from bs_inner [OF Cons.prems(1) this] show ?thesis by (rule retryable_not_401)
  next
    case (Inr res')
    then have eq: "batches_loop c ads b d (i # rest) res w =
                   batches_loop c ads b d rest res' (snd ?s)"
      by (simp add: bl_step)
    consider "Suc k < length (posts (snd ?s))" | "Suc k = length (posts (snd ?s))"
      | "length (posts (snd ?s)) \<le> k" by linarith
    then show ?thesis
    proof cases
      case 1
      from bs_inner [OF Cons.prems(1) 1] show ?thesis by (rule retryable_not_401)
    next
      case 2
      show ?thesis
      proof
        assume "is_401 (c k)"
        with 2 Cons.prems(1) have "length (posts w) < length (posts (snd ?s))"
          "is_401 (c (length (posts (snd ?s)) - 1))" by (simp_all flip: 2)
        from bs_401_last [OF this] Inr show False by simp
      qed
    next
      case 3
      from Cons.IH [OF 3] Cons.prems(2) show ?thesis by (simp add: eq)
    qed
  qed
qed

lemma bl_auth:
  "fst (batches_loop c ads b d is res w) = Inl AuthError \<Longrightarrow>
   length (posts w) < length (posts (snd (batches_loop c ads b d is res w))) \<and>
   is_401 (c (length (posts (snd (batches_loop c ads b d is res w))) - 1))"
proof (induction "is" arbitrary: res w)
  case Nil
  then show ?case by simp
next
  case (Cons i rest)
  let ?s = "batch_step c ads b d i res w"
  show ?case
  proof (cases "fst ?s")
    case (Inl e)
    with Cons.prems have "fst ?s = Inl AuthError" by (simp add: bl_step)
    from bs_auth [OF this] Inl show ?thesis by (simp add: bl_step)
  next
    case (Inr res')
    then have eq: "batches_loop c ads b d (i # rest) res w =
                   batches_loop c ads b d rest res' (snd ?s)"
      by (simp add: bl_step)
    from Cons.prems have "fst (batches_loop c ads b d rest res' (snd ?s)) = Inl AuthError"
      by (simp add: eq)
    from Cons.IH [OF this] bs_mono [of w c ads b d i res] show ?thesis
      unfolding eq by simp
  qed
qed

lemma bl_401_last:
  "length (posts w) < length (posts (snd (batches_loop c ads b d is res w))) \<Longrightarrow>
   is_401 (c (length (posts (snd (batches_loop c ads b d is res w))) - 1)) \<Longrightarrow>
   fst (batches_loop c ads b d is res w) = Inl AuthError"
proof (induction "is" arbitrary: res w)
  case Nil
  then show ?case by simp
next
  case (Cons i rest)
  let ?s = "batch_step c ads b d i res w"
  show ?case
  proof (cases "fst ?s")
    case (Inl e)
    with Cons.prems have
      "length (posts w) < length (posts (snd ?s))" "is_401 (c (length (posts (snd ?s)) - 1))"
      by (simp_all add: bl_step)
    from bs_401_last [OF this] Inl show ?thesis by (simp add: bl_step)
  next
    case (Inr res')
    then have eq: "batches_loop c ads b d (i # rest) res w =
                   batches_loop c ads b d rest res' (snd ?s)"
      by (simp add: bl_step)
    let ?w' = "snd (batches_loop c ads b d rest res' (snd ?s))"
    have last: "is_401 (c (length (posts ?w') - 1))" using Cons.prems(2) by (simp add: eq)
    have lt: "length (posts w) < length (posts ?w')" using Cons.prems(1) by (simp add: eq)
    have ge: "length (posts (snd ?s)) \<le> length (posts ?w')" by (rule bl_mono)
    have "length (posts (snd ?s)) \<noteq> length (posts ?w')"
    proof
      assume same: "length (posts (snd ?s)) = length (posts ?w')"
      with lt last have "length (posts w) < length (posts (snd ?s))"
        "is_401 (c (length (posts (snd ?s)) - 1))" by simp_all
      from bs_401_last [OF this] Inr show False by simp
    qed
    with ge have "length (posts (snd ?s)) < length (posts ?w')" by linarith
    from Cons.IH [OF this last] show ?thesis by (simp add: eq)
  qed
qed

lemma no_surplus_Json:
  "no_surplus c ps k \<Longrightarrow> c k = Response HTTP_OK (Json ds) \<Longrightarrow> length ds \<le> length (ps ! k)"
  by (simp add: no_surplus_def)

lemma bl_returns:
  assumes titles: "\<forall>a \<in> set ads. a ''title'' \<noteq> None"
  shows "(\<forall>k. length (posts w) \<le> k \<and> k < length (posts (snd (batches_loop c ads b d is res w)))
            \<longrightarrow> \<not> is_401 (c k) \<and>
                no_surplus c (posts (snd (batches_loop c ads b d is res w))) k) \<Longrightarrow>
         \<exists>res'. fst (batches_loop c ads b d is res w) = Inr res'"
proof (induction "is" arbitrary: res w)
  case Nil
  show ?case by simp
next
  case (Cons i rest)
  let ?s = "batch_step c ads b d i res w"
  let ?batch = "slice ads i (i + b)"
  have tok: "\<exists>ts. titles_of ?batch = Inr ts"
    using titles set_slice [of ads i "i + b"] by (intro titles_of_ok) blast
  from bs_ext [of c ads b d i res w] obtain e1 where
    e1: "posts (snd ?s) = posts w @ e1" "\<forall>t \<in> set e1. length t = length ?batch" by blast
  show ?case
  proof (cases "fst ?s")
    case (Inl e)
    then have eq: "batches_loop c ads b d (i # rest) res w = (Inl e, snd ?s)"
      by (simp add: bl_step)
    from bs_error_kinds [OF Inl] consider "e = AuthError"
      | "titles_of ?batch = Inl KeyError"
      | ds where "length (posts w) < length (posts (snd ?s))"
          "c (length (posts (snd ?s)) - 1) = Response HTTP_OK (Json ds)"
          "length ?batch < length ds"
      by blast
    then have False
    proof cases
      case 1
      with Inl have "fst ?s = Inl AuthError" by simp
      from bs_auth [OF this] have
        a: "length (posts w) < length (posts (snd ?s))"
           "is_401 (c (length (posts (snd ?s)) - 1))" by simp_all
      from a(1) have "length (posts w) \<le> length (posts (snd ?s)) - 1"
        "length (posts (snd ?s)) - 1 < length (posts (snd ?s))" by simp_all
      with Cons.prems have "\<not> is_401 (c (length (posts (snd ?s)) - 1))"
        unfolding eq by simp
      with a(2) show False by simp
    next
      case 2
      with tok show False by simp
    next
      case 3
      let ?k = "length (posts (snd ?s)) - 1"
      from 3(1) have k: "length (posts w) \<le> ?k" "?k < length (posts (snd ?s))" by simp_all
      with Cons.prems have "no_surplus c (posts (snd ?s)) ?k" unfolding eq by simp
      from no_surplus_Json [OF this 3(2)] have "length ds \<le> length (posts (snd ?s) ! ?k)" .
      moreover from k e1 have "length (posts (snd ?s) ! ?k) = length ?batch"
        by (simp add: nth_append)
      ultimately show False using 3(3) by simp
    qed
    then show ?thesis ..
  next
    case (Inr res1)
    then have eq: "batches_loop c ads b d (i # rest) res w =
                   batches_loop c ads b d rest res1 (snd ?s)"
      by (simp add: bl_step)
    have "\<forall>k. length (posts (snd ?s)) \<le> k \<and>
              k < length (posts (snd (batches_loop c ads b d rest res1 (snd ?s))))
            \<longrightarrow> \<not> is_401 (c k) \<and>
                no_surplus c (posts (snd (batches_loop c ads b d rest res1 (snd ?s)))) k"
      using Cons.prems bs_mono [of w c ads b d i res] unfolding eq by auto
    from Cons.IH [OF this] show ?thesis by (simp add: eq)
  qed
qed

lemmas run_defs =
  enrich_all_ads_def range_step_def batches_loop.simps(2) batch_step_def slice_def
  slice_bound_def enrich_batch_def range_py_3 enrich_batch_loop.simps(2) send_attempt_def
  world0_def http_defs sleep_def Let_def upt_rec

subsection \<open>Authentication failure\<close>

text \<open>
  C1, as the code has it. Whenever a request of a run is answered with HTTP 401,
  \<open>enrich_all_ads\<close> raises \<open>AuthError\<close> and that request is the last one of the run: the
  batch is not retried and no later batch is sent. \<open>AuthError\<close> is raised only then. When
  no request is answered with 401, every record has a title, the batch size is not zero
  and no readable 200 response carries more objects than its request carried titles, the
  run returns a result, whatever rate limits, timeouts, server errors, unreadable bodies,
  unexpected statuses or other exceptions occurred.
\<close>

theorem auth_failure_aborts_run:
  fixes client :: "'v dict client" and ads :: "'v dict list"
  defines "run \<equiv> \<lambda>batch_size delay. enrich_all_ads client ads batch_size delay"
  shows
    "(\<forall>k. k < length (posts (snd (run batch_size delay))) \<and> is_401 (client k) \<longrightarrow>
        fst (run batch_size delay) = Inl AuthError \<and>
        Suc k = length (posts (snd (run batch_size delay)))) \<and>
     (fst (run batch_size delay) = Inl AuthError \<longrightarrow>
        posts (snd (run batch_size delay)) \<noteq> [] \<and>
        is_401 (client (length (posts (snd (run batch_size delay))) - 1))) \<and>
     ((\<forall>a \<in> set ads. a ''title'' \<noteq> None) \<and> batch_size \<noteq> 0 \<and>
      (\<forall>k < length (posts (snd (run batch_size delay))).
          \<not> is_401 (client k) \<and> no_surplus client (posts (snd (run batch_size delay))) k) \<longrightarrow>
        (\<exists>results. fst (run batch_size delay) = Inr results))"
proof (cases "range_step (int (length ads)) batch_size")
  case (Inl e)
  then have "batch_size = 0" "e = ValueError"
    by (auto simp: range_step_def split: if_splits)
  with Inl show ?thesis by (simp add: run_def enrich_all_ads_def world0_def)
next
  case (Inr indices)
  let ?r = "batches_loop client ads batch_size delay indices [] world0"
  have eq: "run batch_size delay = ?r" by (simp add: run_def enrich_all_ads_def Inr)
  have p0: "length (posts (world0 :: 'v world)) = 0" by (simp add: world0_def)
  have a: "fst ?r = Inl AuthError \<and> Suc k = length (posts (snd ?r))"
    if k: "k < length (posts (snd ?r))" "is_401 (client k)" for k
  proof -
    have "\<not> Suc k < length (posts (snd ?r))"
      using bl_inner [of world0 k client ads batch_size delay indices "[]"] k(2) p0 by auto
    with k(1) have last: "Suc k = length (posts (snd ?r))" by simp
    then have "length (posts (world0 :: 'v world)) < length (posts (snd ?r))"
      "is_401 (client (length (posts (snd ?r)) - 1))"
      using k(2) p0 by (simp_all flip: last)
    from bl_401_last [OF this] last show ?thesis by simp
  qed
  have b: "posts (snd ?r) \<noteq> [] \<and> is_401 (client (length (posts (snd ?r)) - 1))"
    if "fst ?r = Inl AuthError"
    using bl_auth [OF that] by auto
  have c: "\<exists>results. fst ?r = Inr results"
    if "\<forall>a \<in> set ads. a ''title'' \<noteq> None"
       "\<forall>k < length (posts (snd ?r)). \<not> is_401 (client k) \<and> no_surplus client (posts (snd ?r)) k"
    using bl_returns [OF that(1), of world0 client batch_size delay indices "[]"] that(2)
    by simp
  from a b c show ?thesis unfolding eq by blast
qed

lemma run_reject_second:
  "fst (enrich_all_ads reject_second three_ads 1 0.5) = Inl AuthError"
  "posts (snd (enrich_all_ads reject_second three_ads 1 0.5)) = [[''pump''], [''valve'']]"
  by (simp_all add: run_defs three_ads_def reject_second_def)

lemma run_teapot:
  "posts (snd (enrich_all_ads teapot three_ads 1 0.5)) = [[''pump''], [''valve''], [''gear'']]"
  by (simp add: run_defs three_ads_def teapot_def)

theorem auth_failure_aborts_run_witness:
  "is_401 (reject_second 1) \<and>
   fst (enrich_all_ads reject_second three_ads 1 0.5) = Inl AuthError \<and>
   length (posts (snd (enrich_all_ads reject_second three_ads 1 0.5))) = 2 \<and>
   (\<exists>results. fst (enrich_all_ads teapot three_ads 1 0.5) = Inr results)"
proof -
  have p: "posts (snd (enrich_all_ads reject_second three_ads 1 0.5)) = [[''pump''], [''valve'']]"
    by (simp add: run_defs three_ads_def reject_second_def)
  have i: "is_401 (reject_second 1)"
    by (simp add: is_401_def reject_second_def http_defs)
  have one: "fst (enrich_all_ads reject_second three_ads 1 0.5) = Inl AuthError \<and>
             length (posts (snd (enrich_all_ads reject_second three_ads 1 0.5))) = 2"
    using auth_failure_aborts_run [of reject_second three_ads 1 "0.5", THEN conjunct1,
        rule_format, of 1] p i by simp
  have q: "posts (snd (enrich_all_ads teapot three_ads 1 0.5)) = [[''pump''], [''valve''], [''gear'']]"
    by (simp add: run_defs three_ads_def teapot_def)
  have t: "\<forall>a \<in> set three_ads. a ''title'' \<noteq> None"
    by (simp add: three_ads_def)
  have n: "\<forall>k < length (posts (snd (enrich_all_ads teapot three_ads 1 0.5))).
             \<not> is_401 (teapot k) \<and>
             no_surplus teapot (posts (snd (enrich_all_ads teapot three_ads 1 0.5))) k"
    unfolding q by (simp add: is_401_def no_surplus_def teapot_def http_defs)
  have two: "\<exists>results. fst (enrich_all_ads teapot three_ads 1 0.5) = Inr results"
    using auth_failure_aborts_run [of teapot three_ads 1 "0.5", THEN conjunct2, THEN conjunct2]
      t n by simp
  from i one two show ?thesis by simp
qed

text \<open>
  The claim as written fails: a run whose only request is answered with HTTP 200, not
  401, raises all the same when the response carries three objects for a batch of two
  records.
\<close>

theorem surplus_reply_raises_counterexample:
  "posts (snd (enrich_all_ads three_objects two_ads 2 0.5)) = [[''pump'', ''valve'']] \<and>
   \<not> is_401 (three_objects 0) \<and>
   fst (enrich_all_ads three_objects two_ads 2 0.5) = Inl IndexError"
  by (simp add: is_401_def three_objects_def http_defs two_ads_def run_defs)

subsection \<open>The positional merge\<close>

lemma zip_merge_nth:
  "length ds \<le> length batch \<Longrightarrow>
   map (\<lambda>(a, d). a ++ d) (zip batch ds) = map (\<lambda>j. (batch ! j) ++ (ds ! j)) [0..<length ds]"
  by (rule nth_equalityI) simp_all

lemma batch_step_merge:
  assumes "titles_of (slice ads i (i + b)) = Inr titles"
      and "fst (enrich_batch titles client w 3) = Inr enriched"
  shows "fst (batch_step client ads b d i results w) =
           merge_loop (slice ads i (i + b)) (enumerate 0 enriched) results"
  using assms by (simp add: bs_fst)

lemma bl_append:
  "batches_loop c ads b d (xs @ ys) res w =
     (case fst (batches_loop c ads b d xs res w) of
        Inl e \<Rightarrow> batches_loop c ads b d xs res w
      | Inr res' \<Rightarrow> batches_loop c ads b d ys res' (snd (batches_loop c ads b d xs res w)))"
proof (induction xs arbitrary: res w)
  case Nil
  show ?case by simp
next
  case (Cons i xs)
  show ?case
  proof (cases "fst (batch_step c ads b d i res w)")
    case (Inl e)
    then show ?thesis by (simp add: bl_step)
  next
    case (Inr res1)
    have a: "batches_loop c ads b d ((i # xs) @ ys) res w =
             batches_loop c ads b d (xs @ ys) res1 (snd (batch_step c ads b d i res w))"
      by (simp add: bl_step Inr)
    have b: "batches_loop c ads b d (i # xs) res w =
             batches_loop c ads b d xs res1 (snd (batch_step c ads b d i res w))"
      by (simp add: bl_step Inr)
    show ?thesis unfolding a b by (rule Cons.IH)
  qed
qed

lemma merge_loop_prefix:
  "merge_loop batch js res = Inr out \<Longrightarrow> \<exists>m. out = res @ m"
  by (induction batch js res rule: merge_loop.induct) (auto split: if_splits)

lemma bs_prefix:
  "fst (batch_step c ads b d i res w) = Inr out \<Longrightarrow> \<exists>m. out = res @ m"
  by (auto simp: bs_fst split: sum.splits dest: merge_loop_prefix)

lemma bl_prefix:
  "fst (batches_loop c ads b d is res w) = Inr out \<Longrightarrow> \<exists>later. out = res @ later"
proof (induction "is" arbitrary: res w)
  case Nil
  then show ?case by simp
next
  case (Cons i rest)
  show ?case
  proof (cases "fst (batch_step c ads b d i res w)")
    case (Inl e)
    with Cons.prems show ?thesis by (simp add: bl_step)
  next
    case (Inr res1)
    from bs_prefix [OF Inr] obtain m where m: "res1 = res @ m" by blast
    from Cons.prems Inr have
      "fst (batches_loop c ads b d rest res1 (snd (batch_step c ads b d i res w))) = Inr out"
      by (simp add: bl_step)
    from Cons.IH [OF this] m show ?thesis by auto
  qed
qed

text \<open>
  C3. Take a run of \<open>enrich_all_ads\<close> whose batches before index \<open>i\<close> returned, and
  whose batch at \<open>i\<close>, of \<open>n\<close> records, gets \<open>k \<le> n\<close> classification objects back. Then
  the loop body appends exactly \<open>k\<close> records, the \<open>j\<close>-th being the \<open>j\<close>-th record of
  the batch merged with the \<open>j\<close>-th object; the run goes on with the later batches from
  there, so that in the list the run returns these \<open>k\<close> records stand right after the
  records of the earlier batches and before those of the later ones, and the last
  \<open>n - k\<close> records of the batch give no output; every key of a record that its object
  does not have keeps its value in the merged record.
\<close>

theorem positional_merge:
  assumes run: "range_step (int (length ads)) b = Inr (earlier @ i # rest)"
      and reached: "batches_loop client ads b d earlier [] world0 = (Inr results, w)"
      and titles: "titles_of (slice ads i (i + b)) = Inr titles"
      and reply: "fst (enrich_batch titles client w 3) = Inr enriched"
      and short: "length enriched \<le> length (slice ads i (i + b))"
  defines "merged \<equiv>
             map (\<lambda>j. (slice ads i (i + b) ! j) ++ (enriched ! j)) [0..<length enriched]"
  shows "fst (batch_step client ads b d i results w) = Inr (results @ merged) \<and>
         enrich_all_ads client ads b d =
           batches_loop client ads b d rest (results @ merged)
             (snd (batch_step client ads b d i results w)) \<and>
         (\<forall>out. fst (enrich_all_ads client ads b d) = Inr out \<longrightarrow>
            (\<exists>later. out = results @ merged @ later)) \<and>
         length merged = length enriched \<and>
         (\<forall>j key. j < length enriched \<and> key \<notin> dom (enriched ! j) \<longrightarrow>
            (merged ! j) key = (slice ads i (i + b) ! j) key)"
proof -
  let ?s = "batch_step client ads b d i results w"
  have step: "fst ?s = Inr (results @ merged)"
    using short zip_merge_nth [OF short]
    by (simp add: merged_def batch_step_merge [OF titles reply] merge_loop_enum)
  have "enrich_all_ads client ads b d =
          batches_loop client ads b d (earlier @ i # rest) [] world0"
    by (simp add: enrich_all_ads_def run)
  also have "\<dots> = batches_loop client ads b d (i # rest) results w"
    by (simp add: bl_append reached)
  also have "\<dots> = batches_loop client ads b d rest (results @ merged) (snd ?s)"
    by (simp add: bl_step step)
  finally have whole: "enrich_all_ads client ads b d =
      batches_loop client ads b d rest (results @ merged) (snd ?s)" .
  have out: "\<exists>later. out = results @ merged @ later"
    if "fst (enrich_all_ads client ads b d) = Inr out" for out
    using bl_prefix [of client ads b d rest "results @ merged" "snd ?s" out] that
    unfolding whole by auto
  have kept: "(merged ! j) key = (slice ads i (i + b) ! j) key"
    if "j < length enriched" "key \<notin> dom (enriched ! j)" for j key
    using that by (simp add: merged_def map_add_dom_app_simps)
  have "length merged = length enriched" by (simp add: merged_def)
  with step whole out kept show ?thesis by blast
qed

lemma slice_two: "slice two_ads 0 2 = two_ads"
  by (simp add: slice_def slice_bound_def two_ads_def)

lemma titles_two: "titles_of two_ads = Inr [''pump'', ''valve'']"
  by (simp add: two_ads_def)

lemma enrich_one:
  "fst (enrich_batch [''pump'', ''valve''] one_object world0 3) = Inr [[''marka'' \<mapsto> ''jcb'']]"
  by (simp add: enrich_batch_def range_py_3 enrich_batch_loop.simps(2) send_attempt_def
        one_object_def world0_def http_defs)

lemma enrich_three:
  "fst (enrich_batch [''pump'', ''valve''] three_objects world0 3) =
     Inr [[''marka'' \<mapsto> ''jcb''], Map.empty, Map.empty]"
  by (simp add: enrich_batch_def range_py_3 enrich_batch_loop.simps(2) send_attempt_def
        three_objects_def world0_def http_defs)

theorem positional_merge_witness:
  "fst (enrich_all_ads one_object three_listed 2 0.5) =
     Inr [[''ad_id'' \<mapsto> ''1'', ''title'' \<mapsto> ''pump'', ''marka'' \<mapsto> ''jcb''],
          [''ad_id'' \<mapsto> ''3'', ''title'' \<mapsto> ''gear'', ''marka'' \<mapsto> ''jcb'']] \<and>
   ([''ad_id'' \<mapsto> ''3'', ''title'' \<mapsto> ''gear''] ++ [''marka'' \<mapsto> ''jcb'']) ''title'' = Some ''gear''"
proof -
  let ?w = "snd (batches_loop one_object three_listed 2 0.5 [0] [] world0)"
  let ?first = "[[''ad_id'' \<mapsto> ''1'', ''title'' \<mapsto> ''pump'', ''marka'' \<mapsto> ''jcb'']]"
  have run: "range_step (int (length three_listed)) 2 = Inr ([0] @ 2 # [])"
    by (simp add: range_step_def three_listed_def upt_rec)
  have "fst (batches_loop one_object three_listed 2 0.5 [0] [] world0) = Inr ?first"
    by (simp add: run_defs three_listed_def one_object_def)
  then have reached:
    "batches_loop one_object three_listed 2 0.5 [0] [] world0 = (Inr ?first, ?w)"
    by (simp add: prod_eq_iff)
  have sl: "slice three_listed 2 (2 + 2) = [[''ad_id'' \<mapsto> ''3'', ''title'' \<mapsto> ''gear'']]"
    by (simp add: slice_def slice_bound_def three_listed_def)
  have titles: "titles_of (slice three_listed 2 (2 + 2)) = Inr [''gear'']"
    unfolding sl by simp
  have reply: "fst (enrich_batch [''gear''] one_object ?w 3) = Inr [[''marka'' \<mapsto> ''jcb'']]"
    by (simp add: enrich_batch_def range_py_3 loop_step flow_of_def one_object_def http_defs)
  have short: "length [[''marka'' \<mapsto> ''jcb'']] \<le> length (slice three_listed 2 (2 + 2))"
    unfolding sl by simp
  note w = positional_merge [OF run reached titles reply short]
  from w have "fst (enrich_all_ads one_object three_listed 2 0.5) =
      fst (batches_loop one_object three_listed 2 0.5 []
             (?first @ map (\<lambda>j. (slice three_listed 2 (2 + 2) ! j) ++ ([[''marka'' \<mapsto> ''jcb'']] ! j))
                           [0..<length [[''marka'' \<mapsto> ''jcb'' :: string]]])
             (snd (batch_step one_object three_listed 2 0.5 2 ?first ?w)))"
    by simp
  then show ?thesis unfolding sl by simp
qed

text \<open>
  C10. When a batch gets more classification objects back than it has records, the
  merge reads \<^verbatim>\<open>batch[j]\<close> past the end of the batch: the loop body raises
  \<open>IndexError\<close>, and the batch loop stops with it.
\<close>

theorem surplus_objects_index_error:
  assumes "titles_of (slice ads i (i + b)) = Inr titles"
      and "fst (enrich_batch titles client w 3) = Inr enriched"
      and "length (slice ads i (i + b)) < length enriched"
  shows "fst (batch_step client ads b d i results w) = Inl IndexError \<and>
         fst (batches_loop client ads b d (i # rest) results w) = Inl IndexError"
proof -
  from assms(3) have "enriched \<noteq> []" by auto
  with assms(3) have "fst (batch_step client ads b d i results w) = Inl IndexError"
    by (simp add: batch_step_merge [OF assms(1,2)] merge_loop_enum)
  then show ?thesis by (simp add: bl_step)
qed

theorem surplus_objects_index_error_witness:
  "length (slice two_ads 0 2) < length [[''marka'' \<mapsto> ''jcb''], Map.empty, Map.empty :: string dict] \<and>
   fst (batches_loop three_objects two_ads 2 0.5 [0] [] world0) = Inl IndexError \<and>
   fst (enrich_all_ads three_objects two_ads 2 0.5) = Inl IndexError"
proof -
  have t: "titles_of (slice two_ads 0 (0 + 2)) = Inr [''pump'', ''valve'']"
    by (simp add: slice_two titles_two)
  have l: "length (slice two_ads 0 (0 + 2))
             < length [[''marka'' \<mapsto> ''jcb''], Map.empty, Map.empty :: string dict]"
    by (simp add: slice_two) (simp add: two_ads_def)
  have r: "range_step (int (length two_ads)) 2 = Inr [0]"
    by (simp add: range_step_def two_ads_def)
  from surplus_objects_index_error [OF t enrich_three l, where d = "0.5" and results = "[]" and rest = "[]"]
    l r show ?thesis
    by (simp add: enrich_all_ads_def)
qed

subsection \<open>Batching\<close>

lemma titles_of_the:
  "\<forall>a \<in> set xs. a ''title'' \<noteq> None \<Longrightarrow> titles_of xs = Inr (map (\<lambda>a. the (a ''title'')) xs)"
  by (induction xs) auto

lemma enrich_batch_first_try:
  assumes "c (length (posts w)) = Response HTTP_OK (Json ds)"
  shows "fst (enrich_batch ts c w 3) = Inr ds"
    and "posts (snd (enrich_batch ts c w 3)) = posts w @ [ts]"
  using assms
  by (simp_all add: enrich_batch_def range_py_3 loop_step flow_of_def send_attempt_posts)

lemma slice_bound_nat: "slice_bound n (int m) = min n m"
  by (simp add: slice_bound_def)

lemma slice_chunk:
  assumes "0 < b"
  shows "slice xs (int k * b) (int k * b + b) = take (nat b) (drop (k * nat b) xs)"
proof -
  define B where "B = nat b"
  have B: "b = int B" "0 < B" using assms by (simp_all add: B_def)
  have i: "int k * b = int (k * B)" "int k * b + b = int (k * B + B)"
    by (simp_all add: B)
  have lo: "slice_bound (length xs) (int k * b) = min (length xs) (k * B)"
    unfolding i by (rule slice_bound_nat)
  have hi: "slice_bound (length xs) (int k * b + b) = min (length xs) (k * B + B)"
    unfolding i(2) by (rule slice_bound_nat)
  show ?thesis
    unfolding slice_def lo hi
    by (rule nth_equalityI) (auto simp: B min_def)
qed

lemma concat_chunks:
  "concat (map (\<lambda>k. take B (drop (k * B) xs)) [0..<m]) = take (m * B) xs"
proof (induction m)
  case 0
  show ?case by simp
next
  case (Suc m)
  have "take (m * B) xs @ take B (drop (m * B) xs) = take (m * B + B) xs"
    by (simp add: take_add)
  with Suc show ?case by (simp add: add.commute)
qed

lemma ceil_div:
  assumes b: "0 < (b::int)"
  shows "\<lceil>real_of_int n / real_of_int b\<rceil> = (n + b - 1) div b"
proof -
  have "- n = b * (- n div b) + (- n) mod b" by simp
  then have "n + b - 1 = b * (- (- n div b)) + (b - 1 - (- n) mod b)"
    by (simp add: algebra_simps)
  moreover have "0 \<le> (- n) mod b" "(- n) mod b < b"
    using b by simp_all
  then have "0 \<le> b - 1 - (- n) mod b" "b - 1 - (- n) mod b < b"
    by linarith+
  ultimately have "(n + b - 1) div b = - (- n div b)"
    by (rule int_div_pos_eq)
  then show ?thesis by (simp add: ceiling_divide_eq_div)
qed

lemma chunk_count:
  fixes n B :: nat
  assumes "0 < B"
  shows "nat ((int n + int B - 1) div int B) = (n + B - 1) div B"
proof -
  have e: "int n + int B - 1 = int (n + B - 1)" using assms by simp
  show ?thesis unfolding e zdiv_int [symmetric] by simp
qed

lemma chunks_cover:
  fixes n B :: nat
  assumes "0 < B"
  shows "n \<le> ((n + B - 1) div B) * B"
proof -
  have "n + B - 1 = ((n + B - 1) div B) * B + (n + B - 1) mod B" by simp
  moreover have "(n + B - 1) mod B < B" using assms by simp
  ultimately show ?thesis by linarith
qed

lemma chunks_full:
  fixes n B k :: nat
  assumes "0 < B" and "Suc k < (n + B - 1) div B"
  shows "k * B + B \<le> n"
proof -
  have "(n + B - 1) div B * B \<le> n + B - 1" by simp
  moreover from assms(2) have "(Suc (Suc k)) * B \<le> (n + B - 1) div B * B"
    by (intro mult_le_mono1) simp
  moreover have "Suc (Suc k) * B = k * B + B + B" by simp
  ultimately show ?thesis using assms(1) by linarith
qed

lemma first_try_successD:
  "first_try_success c ads b k \<Longrightarrow>
   \<exists>ds. c k = Response HTTP_OK (Json ds) \<and>
        length ds \<le> length (slice ads (int k * b) (int k * b + b))"
  by (auto simp: first_try_success_def split: outcome.splits body.splits)

lemma bs_first_try:
  assumes titles: "\<forall>a \<in> set ads. a ''title'' \<noteq> None"
      and ok: "first_try_success c ads b (length (posts w))"
      and i: "i = int (length (posts w)) * b"
  shows "\<exists>res'. fst (batch_step c ads b d i res w) = Inr res'"
    and "posts (snd (batch_step c ads b d i res w)) =
           posts w @ [map (\<lambda>a. the (a ''title'')) (slice ads i (i + b))]"
proof -
  let ?batch = "slice ads i (i + b)"
  have "\<forall>a \<in> set ?batch. a ''title'' \<noteq> None"
    using titles set_slice [of ads i "i + b"] by blast
  then have t: "titles_of ?batch = Inr (map (\<lambda>a. the (a ''title'')) ?batch)"
    by (rule titles_of_the)
  from first_try_successD [OF ok] obtain ds where
    ds: "c (length (posts w)) = Response HTTP_OK (Json ds)" "length ds \<le> length ?batch"
    unfolding i by blast
  note e = enrich_batch_first_try [of c w ds "map (\<lambda>a. the (a ''title'')) ?batch", OF ds(1)]
  show "\<exists>res'. fst (batch_step c ads b d i res w) = Inr res'"
    using ds(2) by (simp add: bs_fst t e(1) merge_loop_enum)
  show "posts (snd (batch_step c ads b d i res w)) =
           posts w @ [map (\<lambda>a. the (a ''title'')) ?batch]"
    by (simp add: bs_posts t e(2))
qed

lemma bl_first_try:
  assumes titles: "\<forall>a \<in> set ads. a ''title'' \<noteq> None"
  shows "\<forall>k. m \<le> k \<and> k < cnt \<longrightarrow> first_try_success c ads b k \<Longrightarrow>
         length (posts w) = m \<Longrightarrow>
         (\<exists>res'. fst (batches_loop c ads b d (map (\<lambda>k. int k * b) [m..<cnt]) res w) = Inr res') \<and>
         posts (snd (batches_loop c ads b d (map (\<lambda>k. int k * b) [m..<cnt]) res w)) =
           posts w @ map (\<lambda>k. map (\<lambda>a. the (a ''title''))
                                 (slice ads (int k * b) (int k * b + b))) [m..<cnt]"
proof (induction "cnt - m" arbitrary: m res w)
  case 0
  then show ?case by simp
next
  case (Suc n)
  then have lt: "m < cnt" by simp
  let ?i = "int m * b"
  let ?s = "batch_step c ads b d ?i res w"
  have ok: "first_try_success c ads b (length (posts w))"
    using Suc.prems lt by simp
  have i: "?i = int (length (posts w)) * b" using Suc.prems(2) by simp
  from bs_first_try [OF titles ok i, of d res] obtain res1 where
    r: "fst ?s = Inr res1" and
    p: "posts (snd ?s) = posts w @ [map (\<lambda>a. the (a ''title'')) (slice ads ?i (?i + b))]"
    by blast
  have "n = cnt - Suc m" using Suc.hyps(2) by simp
  moreover have "\<forall>k. Suc m \<le> k \<and> k < cnt \<longrightarrow> first_try_success c ads b k"
    using Suc.prems(1) by simp
  moreover have "length (posts (snd ?s)) = Suc m" using p Suc.prems(2) by simp
  ultimately have IH:
    "(\<exists>res'. fst (batches_loop c ads b d (map (\<lambda>k. int k * b) [Suc m..<cnt]) res1 (snd ?s)) = Inr res') \<and>
     posts (snd (batches_loop c ads b d (map (\<lambda>k. int k * b) [Suc m..<cnt]) res1 (snd ?s))) =
       posts (snd ?s) @ map (\<lambda>k. map (\<lambda>a. the (a ''title''))
                                 (slice ads (int k * b) (int k * b + b))) [Suc m..<cnt]"
    by (rule Suc.hyps(1))
  have unf: "batches_loop c ads b d (map (\<lambda>k. int k * b) [m..<cnt]) res w =
             batches_loop c ads b d (map (\<lambda>k. int k * b) [Suc m..<cnt]) res1 (snd ?s)"
    using lt r by (simp add: upt_conv_Cons bl_step)
  show ?case unfolding unf using IH p lt by (simp add: upt_conv_Cons)
qed

lemma posts_first_try:
  fixes ads :: "'v dict list"
  assumes b: "0 < b"
      and titles: "\<forall>a \<in> set ads. a ''title'' \<noteq> None"
      and ok: "\<forall>k < (length ads + nat b - 1) div nat b. first_try_success client ads b k"
  shows "\<exists>results. fst (enrich_all_ads client ads b d) = Inr results"
    and "posts (snd (enrich_all_ads client ads b d)) =
           map (\<lambda>k. map (\<lambda>a. the (a ''title'')) (take (nat b) (drop (k * nat b) ads)))
             [0..<(length ads + nat b - 1) div nat b]"
proof -
  let ?cnt = "(length ads + nat b - 1) div nat b"
  have cnt: "nat ((int (length ads) + b - 1) div b) = ?cnt"
    using chunk_count [of "nat b" "length ads"] b by simp
  have r: "range_step (int (length ads)) b = Inr (map (\<lambda>k. int k * b) [0..<?cnt])"
    using b by (simp add: range_step_def cnt)
  have run: "enrich_all_ads client ads b d =
             batches_loop client ads b d (map (\<lambda>k. int k * b) [0..<?cnt]) [] world0"
    by (simp add: enrich_all_ads_def r)
  have ok': "\<forall>k. 0 \<le> k \<and> k < ?cnt \<longrightarrow> first_try_success client ads b k"
    using ok by simp
  have p0: "length (posts (world0 :: 'v world)) = 0" by (simp add: world0_def)
  note f = bl_first_try [OF titles ok' p0, of d "[]"]
  from f show "\<exists>results. fst (enrich_all_ads client ads b d) = Inr results"
    unfolding run by blast
  from f show "posts (snd (enrich_all_ads client ads b d)) =
           map (\<lambda>k. map (\<lambda>a. the (a ''title'')) (take (nat b) (drop (k * nat b) ads))) [0..<?cnt]"
    unfolding run by (simp add: slice_chunk [OF b] world0_def)
qed

text \<open>
  C4. For a batch size \<open>b > 0\<close> (in particular one smaller than the number \<open>n\<close> of
  records), when every batch succeeds on its first attempt, \<open>enrich_all_ads\<close> returns and
  has sent exactly \<open>\<lceil>n / b\<rceil>\<close> requests, each with at most \<open>b\<close> titles; the requests
  put end to end are the titles of the records in input order, and every request but the
  last carries exactly \<open>b\<close> titles.
\<close>

theorem batching_partitions_records:
  fixes ads :: "'v dict list"
  assumes "0 < b"
      and "\<forall>a \<in> set ads. a ''title'' \<noteq> None"
      and "\<forall>k. int k < \<lceil>real (length ads) / real_of_int b\<rceil> \<longrightarrow> first_try_success client ads b k"
  shows "(\<exists>results. fst (enrich_all_ads client ads b d) = Inr results) \<and>
         int (length (posts (snd (enrich_all_ads client ads b d)))) =
           \<lceil>real (length ads) / real_of_int b\<rceil> \<and>
         (\<forall>p \<in> set (posts (snd (enrich_all_ads client ads b d))). int (length p) \<le> b) \<and>
         concat (posts (snd (enrich_all_ads client ads b d))) = map (\<lambda>a. the (a ''title'')) ads \<and>
         (\<forall>k. Suc k < length (posts (snd (enrich_all_ads client ads b d))) \<longrightarrow>
            int (length (posts (snd (enrich_all_ads client ads b d)) ! k)) = b)"
proof -
  let ?B = "nat b"
  let ?n = "length ads"
  let ?cnt = "(?n + ?B - 1) div ?B"
  let ?sent = "posts (snd (enrich_all_ads client ads b d))"
  have B: "0 < ?B" "int ?B = b" using assms(1) by simp_all
  have ceil: "\<lceil>real ?n / real_of_int b\<rceil> = int ?cnt"
  proof -
    have "\<lceil>real_of_int (int ?n) / real_of_int b\<rceil> = (int ?n + b - 1) div b"
      using assms(1) by (rule ceil_div)
    also have "\<dots> = int (nat ((int ?n + int ?B - 1) div int ?B))"
      using assms(1) by (simp add: pos_imp_zdiv_nonneg_iff)
    also have "\<dots> = int ?cnt" using chunk_count [OF B(1), of ?n] by simp
    finally show ?thesis by simp
  qed
  have ok: "\<forall>k < ?cnt. first_try_success client ads b k"
    using assms(3) unfolding ceil by simp
  note run = posts_first_try [OF assms(1,2) ok, of d]
  have len: "length ?sent = ?cnt" by (simp add: run(2))
  have each: "\<forall>p \<in> set ?sent. int (length p) \<le> b"
    using B by (auto simp: run(2))
  have "concat ?sent = map (\<lambda>a. the (a ''title''))
          (concat (map (\<lambda>k. take ?B (drop (k * ?B) ads)) [0..<?cnt]))"
    by (simp add: run(2) map_concat comp_def)
  also have "\<dots> = map (\<lambda>a. the (a ''title'')) (take (?cnt * ?B) ads)"
    by (simp only: concat_chunks)
  also have "\<dots> = map (\<lambda>a. the (a ''title'')) ads"
    using chunks_cover [OF B(1), of ?n] by simp
  finally have whole: "concat ?sent = map (\<lambda>a. the (a ''title'')) ads" .
  have full: "int (length (?sent ! k)) = b" if "Suc k < length ?sent" for k
  proof -
    from that have k: "Suc k < ?cnt" "k < ?cnt" by (simp_all add: len)
    from chunks_full [OF B(1) k(1)] have "k * ?B + ?B \<le> ?n" .
    then have "min (?n - k * ?B) ?B = ?B" by simp
    moreover have "length (?sent ! k) = min (?n - k * ?B) ?B"
      using k(2) by (simp add: run(2))
    ultimately show ?thesis using B(2) by simp
  qed
  from len have len': "int (length ?sent) = int ?cnt" by simp
  from run(1) len' each whole full show ?thesis unfolding ceil by blast
qed

theorem batching_partitions_records_witness:
  "first_try_success one_object three_ads 2 0 \<and>
   first_try_success one_object three_ads 2 1 \<and>
   length (posts (snd (enrich_all_ads one_object three_ads 2 0.5))) = 2 \<and>
   concat (posts (snd (enrich_all_ads one_object three_ads 2 0.5))) = [''pump'', ''valve'', ''gear''] \<and>
   length (posts (snd (enrich_all_ads one_object three_ads 2 0.5)) ! 0) = 2"
proof -
  have s: "first_try_success one_object three_ads 2 0" "first_try_success one_object three_ads 2 1"
    by (simp_all add: first_try_success_def one_object_def three_ads_def slice_def
        slice_bound_def http_defs)
  have c: "\<lceil>real (length three_ads) / real_of_int 2\<rceil> = 2"
    using ceil_div [of 2 3] by (simp add: three_ads_def)
  have h: "\<forall>k. int k < \<lceil>real (length three_ads) / real_of_int 2\<rceil> \<longrightarrow>
             first_try_success one_object three_ads 2 k"
  proof (intro allI impI)
    fix k :: nat
    assume "int k < \<lceil>real (length three_ads) / real_of_int 2\<rceil>"
    then have "k = 0 \<or> k = 1" unfolding c by auto
    with s show "first_try_success one_object three_ads 2 k" by auto
  qed
  have t: "\<forall>a \<in> set three_ads. a ''title'' \<noteq> None" by (simp add: three_ads_def)
  have b: "0 < (2::int)" by simp
  note w = batching_partitions_records [OF b t h, of "0.5"]
  from w have l: "length (posts (snd (enrich_all_ads one_object three_ads 2 0.5))) = 2"
    unfolding c by simp
  from w have "int (length (posts (snd (enrich_all_ads one_object three_ads 2 0.5)) ! 0)) = 2"
    unfolding l by simp
  with w l s show ?thesis by (simp add: three_ads_def)
qed

section \<open>Properties of the coverage analyzer\<close>

lemma dedup_seen_keys:
  "set (map key (dedup_seen key seen xs)) = key ` set xs - set seen"
  by (induction xs arbitrary: seen) auto

lemma dedup_seen_distinct:
  "distinct (map key (dedup_seen key seen xs))"
  by (induction xs arbitrary: seen) (auto simp: dedup_seen_keys simp flip: set_map)

lemma filter_key_distinct:
  "distinct (map k R) \<Longrightarrow> length (filter (\<lambda>r. k r = v) R) = (if v \<in> k ` set R then 1 else 0)"
  by (induction R) (auto simp: image_iff)

lemma length_filter_sum:
  "(\<Sum>l\<leftarrow>L. if P l then 1 else 0) = length (filter P L)"
  by (induction L) auto

lemma length_filter_keys:
  assumes "distinct (map k L)"
  shows "length (filter (\<lambda>l. k l \<in> S) L) = card (k ` set L \<inter> S)"
proof -
  have "distinct (map k (filter (\<lambda>l. k l \<in> S) L))"
    using assms by (rule distinct_map_filter)
  then have "card (set (map k (filter (\<lambda>l. k l \<in> S) L))) = length (filter (\<lambda>l. k l \<in> S) L)"
    using distinct_card by fastforce
  moreover have "set (map k (filter (\<lambda>l. k l \<in> S) L)) = k ` set L \<inter> S" by auto
  ultimately show ?thesis by simp
qed

lemma merge_inner_rows:
  assumes "distinct (map (row_key on) (rows left))"
      and "distinct (map (row_key on) (rows right))"
  shows "length (rows (merge left right on Inner False)) =
           card (row_key on ` set (rows left) \<inter> row_key on ` set (rows right))"
proof -
  let ?k = "row_key on"
  let ?m = "\<lambda>l. filter (\<lambda>r. ?k r = ?k l) (rows right)"
  have z: "(if xs = [] then [] else map f xs) = map f xs" for f :: "row \<Rightarrow> row" and xs
    by simp
  have "length (rows (merge left right on Inner False)) =
          (\<Sum>l\<leftarrow>rows left. length (?m l))"
    by (simp add: merge_def Let_def z length_concat comp_def)
  also have "\<dots> = (\<Sum>l\<leftarrow>rows left. if ?k l \<in> ?k ` set (rows right) then 1 else 0)"
    by (simp add: filter_key_distinct [OF assms(2)])
  also have "\<dots> = length (filter (\<lambda>l. ?k l \<in> ?k ` set (rows right)) (rows left))"
    by (rule length_filter_sum)
  also have "\<dots> = card (?k ` set (rows left) \<inter> ?k ` set (rows right))"
    using assms(1) by (rule length_filter_keys)
  finally show ?thesis .
qed

lemma row_key_restrict: "row_key cols (restrict_row cols r) = row_key cols r"
  by (simp add: row_key_def restrict_row_def)

lemma normalize_groups_ok:
  assumes "set group_cols \<subseteq> set (columns df)"
  shows "\<exists>df'. normalize_groups df = Inr df' \<and>
          map (row_key group_cols) (rows df') = map taxonomy_key (rows df)"
  using assms by (simp add: normalize_groups_def row_key_def taxonomy_key_def)

lemma normalize_groups_err: "normalize_groups df = Inl e \<Longrightarrow> e = KeyError"
  by (simp add: normalize_groups_def split: if_splits)

lemma read_csv_err: "read_csv fs p = Inl e \<Longrightarrow> e = FileNotFoundError \<or> e = ParserError"
  by (auto simp: read_csv_def split: option.splits)

lemma combos_keys:
  assumes "map (row_key group_cols) (rows df') = map taxonomy_key (rows df)"
  defines "combos \<equiv> drop_duplicates (project group_cols df')"
  shows "distinct (map (row_key group_cols) (rows combos))"
    and "row_key group_cols ` set (rows combos) = taxonomy_keys df"
    and "length (rows combos) = card (taxonomy_keys df)"
proof -
  let ?k = "row_key group_cols"
  let ?xs = "map (restrict_row group_cols) (rows df')"
  have rows: "rows combos = dedup_seen ?k [] ?xs"
    by (simp add: combos_def drop_duplicates_def project_def)
  show d: "distinct (map ?k (rows combos))"
    unfolding rows by (rule dedup_seen_distinct)
  have "?k ` set ?xs = set (map ?k (rows df'))"
    by (simp add: image_image row_key_restrict)
  also have "\<dots> = taxonomy_keys df"
    unfolding assms(1) by (simp add: taxonomy_keys_def)
  finally have xs: "?k ` set ?xs = taxonomy_keys df" .
  have "set (map ?k (rows combos)) = taxonomy_keys df"
    unfolding rows dedup_seen_keys xs by simp
  then show s: "?k ` set (rows combos) = taxonomy_keys df" by simp
  have "length (rows combos) = length (map ?k (rows combos))" by simp
  also have "\<dots> = card (set (map ?k (rows combos)))"
    using d by (simp only: distinct_card)
  finally show "length (rows combos) = card (taxonomy_keys df)"
    using s by simp
qed

lemma report_no_zero_division:
  "generate_coverage_report fs enriched_path output_path \<noteq> Inl ZeroDivisionError"
proof
  assume a: "generate_coverage_report fs enriched_path output_path = Inl ZeroDivisionError"
  then show False
    by (auto simp: generate_coverage_report_def Let_def truediv_def
        split: sum.splits if_splits dest: read_csv_err normalize_groups_err)
qed

text \<open>
  C6. \<open>generate_coverage_report\<close> never raises \<open>ZeroDivisionError\<close>. On two files that
  \<^verbatim>\<open>pandas\<close> reads as tables with the three group columns, it returns a report whose
  total is the number of distinct taxonomy keys of the catalog table (rows with the same
  key count once), whose covered count is the number of those keys that are keys of the
  enriched table, whose missing count is their difference, and whose percentage is 0
  when the catalog has no key. A key is the three group cells of a row as the function
  normalises them: the text of the value, and the empty text for a missing cell.
\<close>

theorem coverage_report_counts:
  "generate_coverage_report fs enriched_path output_path \<noteq> Inl ZeroDivisionError \<and>
   (contents fs enriched_path = Some enriched_content \<and>
    parse fs enriched_content = Some enriched \<and>
    contents fs output_path = Some catalog_content \<and>
    parse fs catalog_content = Some catalog \<and>
    set group_cols \<subseteq> set (columns enriched) \<and> set group_cols \<subseteq> set (columns catalog) \<longrightarrow>
    (\<exists>r. generate_coverage_report fs enriched_path output_path = Inr r \<and>
         total_combinations r = int (card (taxonomy_keys catalog)) \<and>
         covered_combinations r = int (card (taxonomy_keys catalog \<inter> taxonomy_keys enriched)) \<and>
         missing_combinations r = total_combinations r - covered_combinations r \<and>
         (taxonomy_keys catalog = {} \<longrightarrow> coverage_percentage r = 0)))"
proof (intro conjI impI)
  show "generate_coverage_report fs enriched_path output_path \<noteq> Inl ZeroDivisionError"
    by (rule report_no_zero_division)
next
  assume a: "contents fs enriched_path = Some enriched_content \<and>
    parse fs enriched_content = Some enriched \<and>
    contents fs output_path = Some catalog_content \<and>
    parse fs catalog_content = Some catalog \<and>
    set group_cols \<subseteq> set (columns enriched) \<and> set group_cols \<subseteq> set (columns catalog)"
  then have rd: "read_csv fs enriched_path = Inr enriched" "read_csv fs output_path = Inr catalog"
    by (simp_all add: read_csv_def)
  from a normalize_groups_ok [of enriched] obtain edf where
    edf: "normalize_groups enriched = Inr edf"
         "map (row_key group_cols) (rows edf) = map taxonomy_key (rows enriched)" by blast
  from a normalize_groups_ok [of catalog] obtain odf where
    odf: "normalize_groups catalog = Inr odf"
         "map (row_key group_cols) (rows odf) = map taxonomy_key (rows catalog)" by blast
  let ?ec = "drop_duplicates (project group_cols edf)"
  let ?oc = "drop_duplicates (project group_cols odf)"
  let ?total = "int (length (rows ?oc))"
  let ?covered = "int (length (rows (merge ?oc ?ec group_cols Inner False)))"
  note e = combos_keys [OF edf(2)]
  note c = combos_keys [OF odf(2)]
  have total: "?total = int (card (taxonomy_keys catalog))" by (simp add: c(3))
  have covered: "?covered = int (card (taxonomy_keys catalog \<inter> taxonomy_keys enriched))"
    using merge_inner_rows [OF c(1) e(1)] by (simp add: c(2) e(2))
  have fin: "finite (taxonomy_keys catalog)" by (simp add: taxonomy_keys_def)
  have r0: "round2 0 = 0" by (simp add: round2_def round_half_even_def)
  show "\<exists>r. generate_coverage_report fs enriched_path output_path = Inr r \<and>
         total_combinations r = int (card (taxonomy_keys catalog)) \<and>
         covered_combinations r = int (card (taxonomy_keys catalog \<inter> taxonomy_keys enriched)) \<and>
         missing_combinations r = total_combinations r - covered_combinations r \<and>
         (taxonomy_keys catalog = {} \<longrightarrow> coverage_percentage r = 0)"
  proof (cases "0 < ?total")
    case True
    then have "taxonomy_keys catalog \<noteq> {}" using total by auto
    moreover have "generate_coverage_report fs enriched_path output_path =
        Inr \<lparr>total_combinations = ?total, covered_combinations = ?covered,
             missing_combinations = ?total - ?covered,
             coverage_percentage = round2 (real_of_int ?covered / real_of_int ?total * 100)\<rparr>"
      using True
      by (simp add: generate_coverage_report_def rd edf(1) odf(1) Let_def truediv_def)
    ultimately show ?thesis using total covered by simp
  next
    case False
    then have "generate_coverage_report fs enriched_path output_path =
        Inr \<lparr>total_combinations = ?total, covered_combinations = ?covered,
             missing_combinations = ?total - ?covered,
             coverage_percentage = 0\<rparr>"
      by (simp add: generate_coverage_report_def rd edf(1) odf(1) Let_def r0)
    then show ?thesis using total covered by simp
  qed
qed

lemmas table_defs =
  files_two_makes_def files_identical_def files_empty_def files_numeric_def on_disk_def
  catalog_two_makes_def enriched_other_def empty_table_def enriched_int_def
  catalog_float_def catalog_cols_def mk_row_def group_cols_def

lemma str_int_1: "str_int 1 = ''1''"
  by (simp add: str_int_def)

lemma keys_examples:
  "taxonomy_keys catalog_two_makes = {[Val (StrV ''A''), Val (StrV ''B''), Val (StrV ''C'')]}"
  "taxonomy_keys enriched_other = {[Val (StrV ''D''), Val (StrV ''E''), Val (StrV ''F'')]}"
  "taxonomy_keys empty_table = {}"
  "taxonomy_keys enriched_int = {[Val (StrV ''1''), Val (StrV ''a''), Val (StrV ''b'')]}"
  "taxonomy_keys catalog_float = {[Val (StrV ''1.0''), Val (StrV ''a''), Val (StrV ''b'')],
                                  [Val (StrV []), Val (StrV ''a''), Val (StrV ''b'')]}"
  by (simp_all add: taxonomy_keys_def taxonomy_key_def fillna_str_def str_int_1 table_defs)

theorem coverage_report_counts_witness:
  "(\<exists>r. generate_coverage_report files_two_makes ''enriched.csv'' ''output.csv'' = Inr r \<and>
        total_combinations r = 1 \<and> covered_combinations r = 0 \<and> missing_combinations r = 1) \<and>
   (\<exists>r. generate_coverage_report files_empty ''enriched.csv'' ''output.csv'' = Inr r \<and>
        total_combinations r = 0 \<and> coverage_percentage r = 0) \<and>
   (\<exists>r. generate_coverage_report files_numeric ''enriched.csv'' ''output.csv'' = Inr r \<and>
        total_combinations r = 2 \<and> covered_combinations r = 0 \<and> missing_combinations r = 2)"
proof -
  have h1: "contents files_two_makes ''enriched.csv'' = Some enriched_other \<and>
            parse files_two_makes enriched_other = Some enriched_other \<and>
            contents files_two_makes ''output.csv'' = Some catalog_two_makes \<and>
            parse files_two_makes catalog_two_makes = Some catalog_two_makes \<and>
            set group_cols \<subseteq> set (columns enriched_other) \<and>
            set group_cols \<subseteq> set (columns catalog_two_makes)"
    by (simp add: files_two_makes_def on_disk_def)
       (simp add: enriched_other_def catalog_two_makes_def catalog_cols_def group_cols_def)
  have h2: "contents files_empty ''enriched.csv'' = Some empty_table \<and>
            parse files_empty empty_table = Some empty_table \<and>
            contents files_empty ''output.csv'' = Some empty_table \<and>
            parse files_empty empty_table = Some empty_table \<and>
            set group_cols \<subseteq> set (columns empty_table) \<and>
            set group_cols \<subseteq> set (columns empty_table)"
    by (simp add: files_empty_def on_disk_def) (simp add: empty_table_def)
  have h3: "contents files_numeric ''enriched.csv'' = Some enriched_int \<and>
            parse files_numeric enriched_int = Some enriched_int \<and>
            contents files_numeric ''output.csv'' = Some catalog_float \<and>
            parse files_numeric catalog_float = Some catalog_float \<and>
            set group_cols \<subseteq> set (columns enriched_int) \<and>
            set group_cols \<subseteq> set (columns catalog_float)"
    by (simp add: files_numeric_def on_disk_def) (simp add: enriched_int_def catalog_float_def)
  from coverage_report_counts [of files_two_makes "''enriched.csv''" "''output.csv''"
      enriched_other enriched_other catalog_two_makes catalog_two_makes,
      THEN conjunct2, rule_format, OF h1]
  have one: "\<exists>r. generate_coverage_report files_two_makes ''enriched.csv'' ''output.csv'' = Inr r \<and>
        total_combinations r = 1 \<and> covered_combinations r = 0 \<and> missing_combinations r = 1"
    by (auto simp: keys_examples)
  from coverage_report_counts [of files_empty "''enriched.csv''" "''output.csv''"
      empty_table empty_table empty_table empty_table, THEN conjunct2, rule_format, OF h2]
  have two: "\<exists>r. generate_coverage_report files_empty ''enriched.csv'' ''output.csv'' = Inr r \<and>
        total_combinations r = 0 \<and> coverage_percentage r = 0"
    by (auto simp: keys_examples)
  from coverage_report_counts [of files_numeric "''enriched.csv''" "''output.csv''"
      enriched_int enriched_int catalog_float catalog_float, THEN conjunct2, rule_format, OF h3]
  have three: "\<exists>r. generate_coverage_report files_numeric ''enriched.csv'' ''output.csv'' = Inr r \<and>
        total_combinations r = 2 \<and> covered_combinations r = 0 \<and> missing_combinations r = 2"
    by (auto simp: keys_examples)
  from one two three show ?thesis by simp
qed

lemmas frame_defs =
  find_missing_coverage_def generate_coverage_report_def read_csv_def to_csv_def
  normalize_groups_def project_def drop_duplicates_def merge_def assign_def
  sort_by_frequency_def frequency_def row_key_def restrict_row_def fillna_str_def
  additional_cols_def truediv_def Let_def

text \<open>
  C7 at a catalog with two rows of one taxonomy key and different makes, none of them
  covered: \<open>find_missing_coverage\<close> returns two rows, while the report counts one
  combination in total and none covered.
\<close>

theorem missing_rows_exceed_missing_keys:
  "(case find_missing_coverage files_two_makes ''enriched.csv'' ''output.csv'' ''missing.csv'' of
      Inl e \<Rightarrow> False
    | Inr (df, fs) \<Rightarrow> length (rows df) = 2) \<and>
   (case generate_coverage_report files_two_makes ''enriched.csv'' ''output.csv'' of
      Inl e \<Rightarrow> False
    | Inr r \<Rightarrow> total_combinations r = 1 \<and> covered_combinations r = 0)"
  by (simp add: frame_defs table_defs)

text \<open>
  C8 at two identical tables: the result is empty, its columns are the three group
  columns and \<open>reason\<close> only, and no file is written. On an input with a missing key
  the result has the six columns and is written to the given path.
\<close>

theorem full_coverage_result_not_saved:
  "(case find_missing_coverage files_identical ''enriched.csv'' ''output.csv'' ''missing.csv'' of
      Inl e \<Rightarrow> False
    | Inr (df, fs) \<Rightarrow>
        rows df = [] \<and>
        columns df = [''group0'', ''group1'', ''group2'', ''reason''] \<and>
        contents fs ''missing.csv'' = None) \<and>
   (case find_missing_coverage files_two_makes ''enriched.csv'' ''output.csv'' ''missing.csv'' of
      Inl e \<Rightarrow> False
    | Inr (df, fs) \<Rightarrow>
        columns df = [''group0'', ''group1'', ''group2'', ''marka'', ''model'', ''reason''] \<and>
        map_option columns (contents fs ''missing.csv'') = Some (columns df))"
  by (simp add: frame_defs table_defs)

section \<open>Properties of the extractor\<close>

lemma parse_items_map_filter:
  "parse_items items ads = ads @ List.map_filter extract_ad items"
  by (induction items arbitrary: ads) (auto simp: List.map_filter_simps split: option.splits)

lemma extract_ad_Some:
  "extract_ad item = Some ad \<Longrightarrow>
   attr item (ustr ''data-item-id'') = Some (ad_id ad) \<and> ad_id ad \<noteq> [] \<and>
   title ad = resolved_title item \<and> title ad \<noteq> []"
  by (auto simp: extract_ad_def get_str_def Let_def split: if_splits option.splits)

lemma map_filter_filter:
  assumes "\<And>x. \<not> P x \<Longrightarrow> f x = None"
  shows "List.map_filter f (filter P xs) = List.map_filter f xs"
proof (induction xs)
  case Nil
  show ?case by simp
next
  case (Cons a xs)
  with assms [of a] show ?case
    by (cases "P a") (simp_all add: List.map_filter_simps split: option.split)
qed

text \<open>
  C9. Every record that \<open>parse_html_file\<close> returns has a non-empty identifier and a
  non-empty title. The records are exactly what the loop body yields on the elements of
  the document, in document order; the loop body yields nothing for an element without
  the identifier attribute or with an empty one, and nothing for an element whose
  resolved title text (the stripped text of its title element) is empty; a record it
  yields carries the element's identifier and its resolved title.
\<close>

theorem records_have_id_and_title:
  "(\<forall>ad \<in> set (parse_html_file soup). ad_id ad \<noteq> [] \<and> title ad \<noteq> []) \<and>
   parse_html_file soup = List.map_filter extract_ad (descendants soup) \<and>
   (\<forall>item. attr item (ustr ''data-item-id'') = None \<or>
           attr item (ustr ''data-item-id'') = Some [] \<longrightarrow>
      extract_ad item = None) \<and>
   (\<forall>item. resolved_title item = [] \<longrightarrow> extract_ad item = None) \<and>
   (\<forall>item ad. extract_ad item = Some ad \<longrightarrow>
      attr item (ustr ''data-item-id'') = Some (ad_id ad) \<and> title ad = resolved_title item)"
proof -
  have none_id: "extract_ad item = None"
    if "attr item (ustr ''data-item-id'') = None \<or> attr item (ustr ''data-item-id'') = Some []"
    for item
    using that by (auto simp: extract_ad_def get_str_def)
  have none_title: "extract_ad item = None" if "resolved_title item = []" for item
    using that by (simp add: extract_ad_def Let_def)
  have eq: "parse_html_file soup = List.map_filter extract_ad (descendants soup)"
  proof -
    have "List.map_filter extract_ad
            (filter (\<lambda>e. attr e (ustr ''data-item-id'') \<noteq> None) (descendants soup)) =
          List.map_filter extract_ad (descendants soup)"
      by (rule map_filter_filter) (simp add: none_id)
    then show ?thesis
      by (simp only: parse_html_file_def find_all_with_def parse_items_map_filter append_Nil)
  qed
  have "ad_id ad \<noteq> [] \<and> title ad \<noteq> []" if "ad \<in> set (parse_html_file soup)" for ad
  proof -
    from that obtain item where "extract_ad item = Some ad"
      unfolding eq by (auto simp: List.map_filter_def)
    from extract_ad_Some [OF this] show ?thesis by blast
  qed
  with eq none_id none_title extract_ad_Some show ?thesis by blast
qed

lemmas parser_defs =
  parse_html_file_def find_all_with_def extract_ad_def get_str_def resolved_title_def
  resolved_url_def marker_text_def find_attr_def find_tag_def get_text_def strip_def
  is_space_def ustr_def sample_soup_def listing_ok_def listing_empty_id_def
  listing_no_title_def listing_no_id_def Let_def

theorem records_have_id_and_title_witness:
  "parse_html_file sample_soup =
     [\<lparr>ad_id = ustr ''123'', title = ustr ''Pump'', url = ustr ''/item/123'', region = [],
       price = []\<rparr>] \<and>
   ad_id \<lparr>ad_id = ustr ''123'', title = ustr ''Pump'', url = ustr ''/item/123'', region = [],
          price = []\<rparr> \<noteq> [] \<and>
   attr listing_empty_id (ustr ''data-item-id'') = Some [] \<and>
   extract_ad listing_empty_id = None \<and>
   resolved_title listing_no_title = [] \<and>
   extract_ad listing_no_title = None \<and>
   attr listing_no_id (ustr ''data-item-id'') = None \<and>
   extract_ad listing_no_id = None"
proof -
  have p: "parse_html_file sample_soup =
     [\<lparr>ad_id = ustr ''123'', title = ustr ''Pump'', url = ustr ''/item/123'', region = [],
       price = []\<rparr>]"
    by (simp add: parser_defs)
  have a: "attr listing_empty_id (ustr ''data-item-id'') = Some []"
          "attr listing_no_id (ustr ''data-item-id'') = None"
    by (simp_all add: listing_empty_id_def listing_no_id_def)
  have t: "resolved_title listing_no_title = []"
    by (simp add: parser_defs)
  note w = records_have_id_and_title [of sample_soup]
  from w p have "ad_id \<lparr>ad_id = ustr ''123'', title = ustr ''Pump'', url = ustr ''/item/123'',
                         region = [], price = []\<rparr> \<noteq> []"
    by simp
  moreover from w a have "extract_ad listing_empty_id = None" "extract_ad listing_no_id = None"
    by blast+
  moreover from w t have "extract_ad listing_no_title = None" by blast
  ultimately show ?thesis using p a t by simp
qed

end
